theory Spec2Isabelle
  imports Main "HOL-Library.Word"
begin

section \<open>Upstream routing and bootstrap resolution of the DNS client\<close>

text \<open>
  The development embeds \<^verbatim>\<open>internal/dnssvc/upstream.go\<close>,
  \<^verbatim>\<open>internal/dnssvc/bootstrap.go\<close> and the bind-retry configuration of package
  \<^verbatim>\<open>cmd\<close>.  Library calls (dnsproxy, miekg/dns, the Go standard library) are
  collaborators: what they decide is a parameter of the model, what they allocate is recorded in
  an explicit world.
\<close>

subsection \<open>Library values\<close>

text \<open>\<^verbatim>\<open>time.Duration\<close> is a 64-bit integer.\<close>

type_synonym duration = "64 word"

text \<open>
  A \<^verbatim>\<open>*slog.Logger\<close> is the list of attributes attached to it; \<^verbatim>\<open>l.With\<close>
  attaches more.  The keys and values of package \<^verbatim>\<open>agdcslog\<close> are kept symbolic.
\<close>

datatype slog_key = KeyUpstreamType | KeyUpstreamGroup

datatype slog_val = UpstreamTypeMain | UpstreamTypeBootstrap | GroupName string

type_synonym logger = "(slog_key \<times> slog_val) list"

definition With :: "logger \<Rightarrow> (slog_key \<times> slog_val) list \<Rightarrow> logger" where
  "With l kvs = l @ kvs"

text \<open>
  An \<^verbatim>\<open>upstream.Upstream\<close> value is a handle: the position of the object in the
  world's heap.  Two handles are the same object exactly when they are equal.
\<close>

type_synonym upstream = nat

datatype upstream_resolver = UpstreamResolver (Upstream: upstream)

datatype resolver =
    CachingResolver upstream_resolver
  | ConsequentResolver "resolver list"

record options =
  Logger :: logger
  Timeout :: duration
  Bootstrap :: "resolver option"

text \<open>
  Errors are values.  \<open>LibError\<close> is whatever a library constructor reports;
  the other constructors are the wrappers the code applies.
\<close>

datatype error =
    LibError string
  | GroupError string error
  | IndexError nat error
  | Joined "error list"
  | Annotated string error

text \<open>
  \<^verbatim>\<open>errors.Join\<close> is nil when it is given no error (the lists built here hold no nil);
  \<^verbatim>\<open>errors.Annotate\<close> keeps nil and wraps everything else.
\<close>

definition Join :: "error list \<Rightarrow> error option" where
  "Join es = (if es = [] then None else Some (Joined es))"

fun Annotate :: "error option \<Rightarrow> string \<Rightarrow> error option" where
  "Annotate None msg = None"
| "Annotate (Some e) msg = Some (Annotated msg e)"

text \<open>
  The world: \<open>heap\<close> lists the upstream objects constructed so far, each with the address
  and the options it was built from; \<open>calls\<close> logs every call of a library constructor,
  failed or not.
\<close>

record world =
  heap :: "(string \<times> options) list"
  calls :: "(string \<times> options) list"

type_synonym constructor = "string \<Rightarrow> options \<Rightarrow> error option"

text \<open>
  \<^verbatim>\<open>upstream.AddressToUpstream(addr, opts)\<close>: the library decides whether the address
  can be turned into an upstream (\<open>a2u addr opts = None\<close>) or reports an error.  On
  success a fresh object is allocated.
\<close>

definition AddressToUpstream ::
  "constructor \<Rightarrow> string \<Rightarrow> options \<Rightarrow> world \<Rightarrow> (error + upstream) \<times> world" where
  "AddressToUpstream a2u addr opts w =
     (let w' = w\<lparr>calls := calls w @ [(addr, opts)]\<rparr>
      in case a2u addr opts of
           Some e \<Rightarrow> (Inl e, w')
         | None \<Rightarrow> (Inr (length (heap w)), w'\<lparr>heap := heap w @ [(addr, opts)]\<rparr>))"

subsection \<open>The upstream pool: \<^verbatim>\<open>newUpstreamOrCached\<close>\<close>

type_synonym pool = "string \<rightharpoonup> upstream"

definition newUpstreamOrCached ::
  "constructor \<Rightarrow> string \<Rightarrow> pool \<Rightarrow> options \<Rightarrow> world \<Rightarrow> (error + upstream) \<times> pool \<times> world" where
  "newUpstreamOrCached a2u addr addrToUps opts w =
     (case addrToUps addr of
        Some u \<Rightarrow> (Inr u, addrToUps, w)
      | None \<Rightarrow>
          (case AddressToUpstream a2u addr opts w of
             (Inl err, w') \<Rightarrow> (Inl err, addrToUps, w')
           | (Inr u, w') \<Rightarrow> (Inr u, addrToUps(addr \<mapsto> u), w')))"

subsection \<open>Domain normalisation: \<^verbatim>\<open>dns.Fqdn(strings.ToLower(domain))\<close>\<close>

text \<open>
  Strings are byte lists, as in Go.  \<^verbatim>\<open>strings.ToLower\<close> has an ASCII fast path, which is
  modelled exactly; a string with a byte of 128 or more goes through
  \<^verbatim>\<open>strings.Map(unicode.ToLower, s)\<close>, which is the parameter \<open>uni\<close>.
\<close>

definition isUpper :: "char \<Rightarrow> bool" where
  "isUpper c = (65 \<le> (of_char c :: nat) \<and> (of_char c :: nat) \<le> 90)"

definition isASCII :: "char \<Rightarrow> bool" where
  "isASCII c = ((of_char c :: nat) < 128)"

definition lowerByte :: "char \<Rightarrow> char" where
  "lowerByte c = (if isUpper c then char_of ((of_char c :: nat) + 32) else c)"

definition ToLower :: "(string \<Rightarrow> string) \<Rightarrow> string \<Rightarrow> string" where
  "ToLower uni s =
     (if list_all isASCII s
      then (if \<not> list_ex isUpper s then s else map lowerByte s)
      else uni s)"

text \<open>
  \<^verbatim>\<open>dns.IsFqdn\<close> of miekg/dns: the name must end in a dot, and when backslashes precede
  that dot their number decides whether the dot is escaped.  The library finds the last rune
  that is not a backslash with \<^verbatim>\<open>strings.LastIndexFunc\<close>, which returns the byte index
  where that rune starts, or -1; \<open>runeSize\<close> is the width
  \<^verbatim>\<open>utf8.DecodeLastRuneInString\<close> reports for a string whose last byte is not ASCII
  (an ASCII byte is a rune of width 1).
\<close>

definition backslash :: char where
  "backslash = CHR 0x5C"

definition LastIndexNotBackslash :: "(string \<Rightarrow> nat) \<Rightarrow> string \<Rightarrow> int" where
  "LastIndexNotBackslash runeSize s =
     (let p = rev (dropWhile (\<lambda>c. c = backslash) (rev s))
      in if p = [] then - 1
         else int (length p) - int (if isASCII (last p) then 1 else runeSize p))"

definition IsFqdn :: "(string \<Rightarrow> nat) \<Rightarrow> string \<Rightarrow> bool" where
  "IsFqdn runeSize s =
     (if s = [] \<or> last s \<noteq> CHR ''.'' then False
      else let s' = butlast s
           in if s' = [] \<or> last s' \<noteq> backslash then True
              else (int (length s') - LastIndexNotBackslash runeSize s') mod 2 \<noteq> 0)"

definition Fqdn :: "(string \<Rightarrow> nat) \<Rightarrow> string \<Rightarrow> string" where
  "Fqdn runeSize s = (if IsFqdn runeSize s then s else s @ ''.'')"

text \<open>The two Unicode collaborators travel together.\<close>

record unicode =
  lowerMap :: "string \<Rightarrow> string"
  lastRuneSize :: "string \<Rightarrow> nat"

definition normalize :: "unicode \<Rightarrow> string \<Rightarrow> string" where
  "normalize U domain = Fqdn (lastRuneSize U) (ToLower (lowerMap U) domain)"

subsection \<open>Configuration and routing table\<close>

text \<open>
  \<^verbatim>\<open>netip.Prefix\<close> is a comparable struct: a 128-bit address, the tag that tells the
  zero address, IPv4 and IPv6 (with its zone) apart, and the prefix length plus one.  The zero
  value is \<^verbatim>\<open>netip.Prefix{}\<close>.
\<close>

datatype family = z0 | z4 | z6 string

datatype prefix = Prefix (ip: "128 word") (z: family) (bitsPlusOne: "8 word")

definition zeroPrefix :: prefix where
  "zeroPrefix = Prefix 0 z0 0"

record MatchCriteria =
  Client :: prefix
  QuestionDomain :: string

record UpstreamGroupConfig =
  Name :: string
  Address :: string
  Match :: "MatchCriteria list"

text \<open>
  Field \<^verbatim>\<open>Timeout\<close> of \<^verbatim>\<open>UpstreamConfig\<close> is \<open>UpstreamTimeout\<close> here.  The
  groups are the structs the pointers of \<^verbatim>\<open>conf.Groups\<close> point to; none of them is nil.
\<close>

record UpstreamConfig =
  Groups :: "UpstreamGroupConfig list"
  UpstreamTimeout :: duration

text \<open>
  \<^verbatim>\<open>proxy.UpstreamConfig\<close> of dnsproxy, with the three fields the code writes.  A Go map
  may be nil, which is \<open>None\<close>; a nil slice is the empty list.
\<close>

record proxyUpstreamConfig =
  DomainReservedUpstreams :: "(string \<rightharpoonup> upstream list) option"
  SpecifiedDomainUpstreams :: "(string \<rightharpoonup> upstream list) option"
  Upstreams :: "upstream list"

definition emptyConfig :: proxyUpstreamConfig where
  "emptyConfig =
     \<lparr>DomainReservedUpstreams = None, SpecifiedDomainUpstreams = None, Upstreams = []\<rparr>"

text \<open>
  Modelled from the spec: the declaration of \<^verbatim>\<open>upstreamConfigs\<close> (package
  \<^verbatim>\<open>dnssvc\<close>) is missing from the sources.  The spec's routing table is a mapping from
  client subnet prefix to a per-client upstream configuration, and \<^verbatim>\<open>newUpstreams\<close>
  builds it as a map from \<^verbatim>\<open>netip.Prefix\<close> to pointers to
  \<^verbatim>\<open>proxy.UpstreamConfig\<close>.  Every pointer is created in place and stored under one key
  only, so the table is modelled by value.
\<close>

type_synonym upstreamConfigs = "prefix \<rightharpoonup> proxyUpstreamConfig"

text \<open>
  Modelled from the spec: the constants \<^verbatim>\<open>UpstreamGroupNameDefault\<close> and
  \<^verbatim>\<open>UpstreamGroupNamePrivate\<close> of package \<^verbatim>\<open>agdc\<close> are missing from the sources.
  The spec names the two reserved groups \<^verbatim>\<open>default\<close> and \<^verbatim>\<open>private\<close>, as the
  distributed configuration file spells them.
\<close>

definition UpstreamGroupNameDefault :: string where
  "UpstreamGroupNameDefault = ''default''"

definition UpstreamGroupNamePrivate :: string where
  "UpstreamGroupNamePrivate = ''private''"

subsection \<open>\<^verbatim>\<open>addGroup\<close>\<close>

text \<open>\<^verbatim>\<open>append(m[domain], u)\<close> stored back under \<open>domain\<close>; a missing key reads as nil.\<close>

definition appendAt :: "(string \<rightharpoonup> upstream list) \<Rightarrow> string \<Rightarrow> upstream \<Rightarrow> (string \<rightharpoonup> upstream list)" where
  "appendAt m domain u = m(domain \<mapsto> (case m domain of None \<Rightarrow> [] | Some us \<Rightarrow> us) @ [u])"

definition orEmptyMap :: "(string \<rightharpoonup> upstream list) option \<Rightarrow> (string \<rightharpoonup> upstream list)" where
  "orEmptyMap mo = (case mo of None \<Rightarrow> Map.empty | Some m \<Rightarrow> m)"

text \<open>One iteration of the loop over \<^verbatim>\<open>ugc.Match\<close>.\<close>

definition addMatch :: "unicode \<Rightarrow> upstream \<Rightarrow> upstreamConfigs \<Rightarrow> MatchCriteria \<Rightarrow> upstreamConfigs" where
  "addMatch U u configs m =
     (let conf = (case configs (Client m) of None \<Rightarrow> emptyConfig | Some c \<Rightarrow> c);
          domain = QuestionDomain m
      in if domain = [] then configs(Client m \<mapsto> conf\<lparr>Upstreams := Upstreams conf @ [u]\<rparr>)
         else let reserved = orEmptyMap (DomainReservedUpstreams conf);
                  specified = orEmptyMap (SpecifiedDomainUpstreams conf);
                  domain' = normalize U domain
              in configs(Client m \<mapsto> conf
                   \<lparr>DomainReservedUpstreams := Some (appendAt reserved domain' u),
                    SpecifiedDomainUpstreams := Some (appendAt specified domain' u)\<rparr>))"

definition addGroup :: "unicode \<Rightarrow> UpstreamGroupConfig \<Rightarrow> upstreamConfigs \<Rightarrow> upstream \<Rightarrow> upstreamConfigs" where
  "addGroup U ugc configs u = foldl (addMatch U u) configs (Match ugc)"

subsection \<open>\<^verbatim>\<open>newUpstreams\<close>\<close>

text \<open>
  The variables of the loop over \<^verbatim>\<open>conf.Groups\<close>, and the world.  The result
  \<^verbatim>\<open>private\<close> is the field \<open>privateConf\<close>.  \<open>panicked\<close> records a nil
  dereference, after which nothing more runs.
\<close>

record build =
  ups :: upstreamConfigs
  privateConf :: "proxyUpstreamConfig option"
  upstreams :: pool
  errs :: "error list"
  wld :: world
  panicked :: bool

definition groupOptions :: "duration \<Rightarrow> logger \<Rightarrow> resolver option \<Rightarrow> UpstreamGroupConfig \<Rightarrow> options" where
  "groupOptions timeout l boot g =
     \<lparr>Logger = With l [(KeyUpstreamType, UpstreamTypeMain), (KeyUpstreamGroup, GroupName (Name g))],
      Timeout = timeout,
      Bootstrap = boot\<rparr>"

definition initBuild :: "world \<Rightarrow> build" where
  "initBuild w =
     \<lparr>ups = [zeroPrefix \<mapsto> emptyConfig], privateConf = None, upstreams = Map.empty, errs = [],
      wld = w, panicked = False\<rparr>"

text \<open>
  The \<^verbatim>\<open>switch g.Name\<close> of the loop body, with the upstream \<open>u\<close> of the group.
  \<^verbatim>\<open>ups[netip.Prefix{}].Upstreams\<close> dereferences the pointer stored under the zero prefix,
  which panics when the key is missing.
\<close>

definition routeGroup :: "unicode \<Rightarrow> UpstreamGroupConfig \<Rightarrow> upstream \<Rightarrow> build \<Rightarrow> build" where
  "routeGroup U g u b =
     (if Name g = UpstreamGroupNameDefault then
        (case ups b zeroPrefix of
           None \<Rightarrow> b\<lparr>panicked := True\<rparr>
         | Some d \<Rightarrow> b\<lparr>ups := (ups b)(zeroPrefix \<mapsto> d\<lparr>Upstreams := Upstreams d @ [u]\<rparr>)\<rparr>)
      else if Name g = UpstreamGroupNamePrivate then
        (let p = (case privateConf b of None \<Rightarrow> emptyConfig | Some c \<Rightarrow> c)
         in b\<lparr>privateConf := Some (p\<lparr>Upstreams := Upstreams p @ [u]\<rparr>)\<rparr>)
      else b\<lparr>ups := addGroup U g (ups b) u\<rparr>)"

text \<open>The body of the loop.\<close>

definition groupStep ::
  "constructor \<Rightarrow> unicode \<Rightarrow> duration \<Rightarrow> logger \<Rightarrow> resolver option \<Rightarrow> build \<Rightarrow> UpstreamGroupConfig \<Rightarrow> build" where
  "groupStep a2u U timeout l boot b g =
     (if panicked b then b
      else case newUpstreamOrCached a2u (Address g) (upstreams b) (groupOptions timeout l boot g) (wld b) of
        (Inl err, cache, w) \<Rightarrow>
          b\<lparr>upstreams := cache, wld := w, errs := errs b @ [GroupError (Name g) err]\<rparr>
      | (Inr u, cache, w) \<Rightarrow> routeGroup U g u (b\<lparr>upstreams := cache, wld := w\<rparr>))"

definition buildLoop ::
  "constructor \<Rightarrow> unicode \<Rightarrow> duration \<Rightarrow> logger \<Rightarrow> resolver option \<Rightarrow> build \<Rightarrow> UpstreamGroupConfig list \<Rightarrow> build" where
  "buildLoop a2u U timeout l boot b gs = foldl (groupStep a2u U timeout l boot) b gs"

text \<open>
  \<^verbatim>\<open>newUpstreams(conf, l, boot)\<close> returns the table, the private configuration and the
  joined error, annotated by the deferred call; the world after the call is returned with them.
  \<open>None\<close> is a panic.
\<close>

definition newUpstreams ::
  "constructor \<Rightarrow> unicode \<Rightarrow> UpstreamConfig \<Rightarrow> logger \<Rightarrow> resolver option \<Rightarrow> world
   \<Rightarrow> ((upstreamConfigs \<times> proxyUpstreamConfig option \<times> error option) \<times> world) option" where
  "newUpstreams a2u U conf l boot w =
     (let b = buildLoop a2u U (UpstreamTimeout conf) l boot (initBuild w) (Groups conf)
      in if panicked b then None
         else Some ((ups b, privateConf b, Annotate (Join (errs b)) ''creating upstreams''), wld b))"

subsection \<open>\<^verbatim>\<open>newResolvers\<close>\<close>

text \<open>
  \<^verbatim>\<open>netip.AddrPort\<close> is an address with a port; \<^verbatim>\<open>addr.String()\<close> is the
  parameter \<open>str\<close>.  Field \<^verbatim>\<open>Timeout\<close> of \<^verbatim>\<open>BootstrapConfig\<close> is
  \<open>BootstrapTimeout\<close> here.
\<close>

datatype addrPort = AddrPort (apIP: "128 word") (apZ: family) (port: "16 word")

record BootstrapConfig =
  Addresses :: "addrPort list"
  BootstrapTimeout :: duration

text \<open>
  \<^verbatim>\<open>upstream.NewUpstreamResolver(addr, opts)\<close>: the library decides (\<open>nur\<close>) and
  on success allocates the upstream that the returned resolver wraps.
\<close>

definition NewUpstreamResolver ::
  "constructor \<Rightarrow> string \<Rightarrow> options \<Rightarrow> world \<Rightarrow> (error + upstream_resolver) \<times> world" where
  "NewUpstreamResolver nur addr opts w =
     (let w' = w\<lparr>calls := calls w @ [(addr, opts)]\<rparr>
      in case nur addr opts of
           Some e \<Rightarrow> (Inl e, w')
         | None \<Rightarrow> (Inr (UpstreamResolver (length (heap w))), w'\<lparr>heap := heap w @ [(addr, opts)]\<rparr>))"

record chain =
  resolvers :: "resolver list"
  closers :: "upstream list"
  rerrs :: "error list"
  rwld :: world

definition bootstrapOptions :: "BootstrapConfig \<Rightarrow> logger \<Rightarrow> options" where
  "bootstrapOptions conf l =
     \<lparr>Logger = With l [(KeyUpstreamType, UpstreamTypeBootstrap)],
      Timeout = BootstrapTimeout conf,
      Bootstrap = None\<rparr>"

text \<open>The loop \<^verbatim>\<open>for i, addr := range conf.Addresses\<close>, from index \<open>i\<close> on.\<close>

fun resolversLoop ::
  "constructor \<Rightarrow> (addrPort \<Rightarrow> string) \<Rightarrow> options \<Rightarrow> nat \<Rightarrow> addrPort list \<Rightarrow> chain \<Rightarrow> chain" where
  "resolversLoop nur str opts i [] c = c"
| "resolversLoop nur str opts i (addr # addrs) c =
     (case NewUpstreamResolver nur (str addr) opts (rwld c) of
        (Inl err, w) \<Rightarrow>
          resolversLoop nur str opts (Suc i) addrs
            (c\<lparr>rerrs := rerrs c @ [IndexError i err], rwld := w\<rparr>)
      | (Inr b, w) \<Rightarrow>
          resolversLoop nur str opts (Suc i) addrs
            (c\<lparr>resolvers := resolvers c @ [CachingResolver b],
               closers := closers c @ [Upstream b],
               rwld := w\<rparr>))"

definition newResolvers ::
  "constructor \<Rightarrow> (addrPort \<Rightarrow> string) \<Rightarrow> BootstrapConfig \<Rightarrow> logger \<Rightarrow> world
   \<Rightarrow> (resolver \<times> upstream list \<times> error option) \<times> world" where
  "newResolvers nur str conf l w =
     (let c = resolversLoop nur str (bootstrapOptions conf l) 0 (Addresses conf)
                \<lparr>resolvers = [], closers = [], rerrs = [], rwld = w\<rparr>
      in ((ConsequentResolver (resolvers c), closers c,
           Annotate (Join (rerrs c)) ''creating bootstraps''), rwld c))"

subsection \<open>Bind retry\<close>

text \<open>
  The configuration of package \<^verbatim>\<open>cmd\<close> and its conversion.  \<^verbatim>\<open>timeutil.Duration\<close>
  wraps \<^verbatim>\<open>time.Duration\<close>; \<^verbatim>\<open>uint\<close> has 64 bits.  The target type
  \<^verbatim>\<open>dnssvc.BindRetryConfig\<close> is declared outside the sources; its fields are the three
  that \<^verbatim>\<open>toInternal\<close> sets, here \<open>retryEnabled\<close>, \<open>retryInterval\<close> and
  \<open>retryCount\<close>.
\<close>

record bindRetryConfig =
  Enabled :: bool
  Interval :: duration
  Count :: "64 word"

record BindRetryConfig =
  retryEnabled :: bool
  retryInterval :: duration
  retryCount :: "64 word"

definition toInternal :: "bindRetryConfig \<Rightarrow> BindRetryConfig" where
  "toInternal c = \<lparr>retryEnabled = Enabled c, retryInterval = Interval c, retryCount = Count c\<rparr>"

text \<open>
  \<^verbatim>\<open>Validate\<close> of \<^verbatim>\<open>*bindRetryConfig\<close>: a nil receiver has no value; a disabled
  configuration is valid; an enabled one needs a positive interval.
\<close>

datatype validation = ErrNoValue | ErrNotPositive string

definition Validate :: "bindRetryConfig option \<Rightarrow> validation option" where
  "Validate c =
     (case c of
        None \<Rightarrow> Some ErrNoValue
      | Some c \<Rightarrow>
          if \<not> Enabled c then None
          else if 0 < sint (Interval c) then None else Some (ErrNotPositive ''interval''))"

text \<open>
  What a run of the executor does, in order: bind attempts with their results, and sleeps.
  The bind function is an effect; \<open>bind k\<close> is the result of its call number \<open>k\<close>,
  counted from 0.
\<close>

datatype event = Attempt "error option" | Sleep duration

text \<open>
  Modelled from the spec: the bind retry executor itself (the function of package
  \<^verbatim>\<open>dnssvc\<close> that consumes \<^verbatim>\<open>BindRetryConfig\<close>) is missing from the sources.  The
  spec: if retry is disabled, perform a single bind attempt and return its result unchanged; if
  enabled, attempt bind; on failure, sleep the interval, retry, up to count additional
  attempts; return the last encountered error if all attempts fail, success immediately on the
  first attempt that succeeds; the interval is constant.
  \<open>retryLoop\<close> is the retry part: \<open>n\<close> attempts remain, \<open>k\<close> calls were made,
  \<open>err\<close> is the last error.
\<close>

fun retryLoop ::
  "(nat \<Rightarrow> error option) \<Rightarrow> duration \<Rightarrow> nat \<Rightarrow> nat \<Rightarrow> error \<Rightarrow> event list \<Rightarrow> error option \<times> event list" where
  "retryLoop bind interval 0 k err tr = (Some err, tr)"
| "retryLoop bind interval (Suc n) k err tr =
     (case bind k of
        None \<Rightarrow> (None, tr @ [Sleep interval, Attempt None])
      | Some e \<Rightarrow> retryLoop bind interval n (Suc k) e (tr @ [Sleep interval, Attempt (Some e)]))"

text \<open>
  Modelled from the spec: the entry point of the bind retry executor, missing from the sources
  (see \<open>retryLoop\<close>).
\<close>

definition bindWithRetry :: "(nat \<Rightarrow> error option) \<Rightarrow> BindRetryConfig \<Rightarrow> error option \<times> event list" where
  "bindWithRetry bind conf =
     (case bind 0 of
        None \<Rightarrow> (None, [Attempt None])
      | Some e \<Rightarrow>
          if \<not> retryEnabled conf then (Some e, [Attempt (Some e)])
          else retryLoop bind (retryInterval conf) (unat (retryCount conf)) 1 e [Attempt (Some e)])"

subsection \<open>Example values\<close>

text \<open>A constructor that rejects one address, and a starting world with nothing allocated.\<close>

definition exA2U :: constructor where
  "exA2U addr opts = (if addr = ''bad://'' then Some (LibError ''unsupported scheme'') else None)"

definition exOptions :: options where
  "exOptions = \<lparr>Logger = [], Timeout = 2000, Bootstrap = None\<rparr>"

definition exWorld :: world where
  "exWorld = \<lparr>heap = [], calls = []\<rparr>"

subsection \<open>Reading the table\<close>

text \<open>
  The entry of a client prefix, with the empty configuration for a missing key, and a Go read of
  a domain map that may be nil.
\<close>

definition entryAt :: "upstreamConfigs \<Rightarrow> prefix \<Rightarrow> proxyUpstreamConfig" where
  "entryAt configs p = (case configs p of None \<Rightarrow> emptyConfig | Some c \<Rightarrow> c)"

definition domainUpstreams :: "(string \<rightharpoonup> upstream list) option \<Rightarrow> string \<Rightarrow> upstream list" where
  "domainUpstreams mo domain = (case orEmptyMap mo domain of None \<Rightarrow> [] | Some us \<Rightarrow> us)"

text \<open>
  Unicode collaborators for the examples (the example domains are ASCII, so neither is
  consulted), and groups after the distributed configuration file.
\<close>

definition exUnicode :: unicode where
  "exUnicode = \<lparr>lowerMap = (\<lambda>s. s), lastRuneSize = (\<lambda>s. 1)\<rparr>"

definition exDefault :: UpstreamGroupConfig where
  "exDefault = \<lparr>Name = ''default'', Address = ''9.9.9.9'', Match = []\<rparr>"

definition exPrivate :: UpstreamGroupConfig where
  "exPrivate = \<lparr>Name = ''private'', Address = ''192.168.12.34'', Match = []\<rparr>"

definition exOffice :: UpstreamGroupConfig where
  "exOffice = \<lparr>Name = ''office'', Address = ''192.168.12.34'',
     Match = [\<lparr>Client = zeroPrefix, QuestionDomain = ''MyCompany.LOCAL''\<rparr>]\<rparr>"

definition exLan :: prefix where
  "exLan = Prefix 0xFFFFC0A80200 z4 25"

definition exClients :: UpstreamGroupConfig where
  "exClients = \<lparr>Name = ''lan'', Address = ''9.9.9.9'',
     Match = [\<lparr>Client = exLan, QuestionDomain = []\<rparr>,
              \<lparr>Client = exLan, QuestionDomain = ''mycompany.local.''\<rparr>]\<rparr>"

definition exBroken :: UpstreamGroupConfig where
  "exBroken = \<lparr>Name = ''broken'', Address = ''bad://'',
     Match = [\<lparr>Client = exLan, QuestionDomain = []\<rparr>]\<rparr>"

definition exConf :: UpstreamConfig where
  "exConf = \<lparr>Groups = [exDefault, exPrivate, exOffice, exBroken, exClients], UpstreamTimeout = 2000\<rparr>"

subsection \<open>What a bootstrap list produces\<close>

text \<open>
  The addresses of a list that the library accepts, and the errors of those it rejects, each
  with its position in the whole list (\<open>i\<close> is the position of the first address).
\<close>

definition accepted :: "constructor \<Rightarrow> (addrPort \<Rightarrow> string) \<Rightarrow> options \<Rightarrow> addrPort list \<Rightarrow> addrPort list" where
  "accepted nur str opts addrs = filter (\<lambda>a. nur (str a) opts = None) addrs"

fun rejected :: "constructor \<Rightarrow> (addrPort \<Rightarrow> string) \<Rightarrow> options \<Rightarrow> nat \<Rightarrow> addrPort list \<Rightarrow> error list" where
  "rejected nur str opts i [] = []"
| "rejected nur str opts i (a # addrs) =
     (case nur (str a) opts of
        None \<Rightarrow> rejected nur str opts (Suc i) addrs
      | Some e \<Rightarrow> IndexError i e # rejected nur str opts (Suc i) addrs)"

definition exStr :: "addrPort \<Rightarrow> string" where
  "exStr a = (if a = AddrPort 0xFFFF08080808 z4 53 then ''8.8.8.8:53''
              else if a = AddrPort 0xFFFF08080404 z4 53 then ''8.8.4.4:53''
              else ''invalid AddrPort'')"

definition exNUR :: constructor where
  "exNUR addr opts = (if addr = ''invalid AddrPort'' then Some (LibError ''not an ip:port'') else None)"

definition exBootstrap :: BootstrapConfig where
  "exBootstrap = \<lparr>Addresses = [AddrPort 0 z0 0, AddrPort 0xFFFF08080808 z4 53, AddrPort 0xFFFF08080404 z4 53],
                   BootstrapTimeout = 2000\<rparr>"

subsection \<open>Reading a run of the bind retry executor\<close>

fun isAttempt :: "event \<Rightarrow> bool" where
  "isAttempt (Attempt r) = True"
| "isAttempt (Sleep d) = False"

definition attemptCount :: "event list \<Rightarrow> nat" where
  "attemptCount tr = length (filter isAttempt tr)"

text \<open>The retries number \<open>i\<close> to \<open>j - 1\<close>, each after a sleep of the interval.\<close>

definition retries :: "(nat \<Rightarrow> error option) \<Rightarrow> duration \<Rightarrow> nat \<Rightarrow> nat \<Rightarrow> event list" where
  "retries bind interval i j = concat (map (\<lambda>k. [Sleep interval, Attempt (bind k)]) [i..<j])"

definition exRetry :: bindRetryConfig where
  "exRetry = \<lparr>Enabled = True, Interval = 1000000000, Count = 4\<rparr>"

definition exBindFails :: "nat \<Rightarrow> error option" where
  "exBindFails k = Some (LibError (replicate k CHR ''x''))"

definition exBindThird :: "nat \<Rightarrow> error option" where
  "exBindThird k = (if k = 2 then None else Some (LibError (replicate k CHR ''x'')))"

subsection \<open>Spelling variants of a domain\<close>


subsection \<open>Handles in a table, objects built by a run\<close>

text \<open>
  The handles an entry holds (catch-all list and every list of both domain maps), those of a
  whole table, and those of the private configuration.
\<close>

definition entryHandles :: "proxyUpstreamConfig \<Rightarrow> upstream set" where
  "entryHandles e =
     set (Upstreams e)
     \<union> (\<Union>k. set (domainUpstreams (DomainReservedUpstreams e) k))
     \<union> (\<Union>k. set (domainUpstreams (SpecifiedDomainUpstreams e) k))"

definition tableHandles :: "upstreamConfigs \<Rightarrow> upstream set" where
  "tableHandles t = (\<Union>p. entryHandles (entryAt t p))"

definition privateHandles :: "proxyUpstreamConfig option \<Rightarrow> upstream set" where
  "privateHandles po = (case po of None \<Rightarrow> {} | Some e \<Rightarrow> entryHandles e)"

text \<open>
  The objects allocated between world \<open>w\<close> and a later world \<open>w'\<close>, and how many of them
  were built from address \<open>a\<close>.
\<close>

definition built :: "world \<Rightarrow> world \<Rightarrow> (string \<times> options) list" where
  "built w w' = drop (length (heap w)) (heap w')"

definition builtFor :: "string \<Rightarrow> world \<Rightarrow> world \<Rightarrow> nat" where
  "builtFor a w w' = length (filter (\<lambda>x. fst x = a) (built w w'))"

subsection \<open>Which groups fail\<close>

text \<open>
  A group fails when its address is not pooled yet and the library rejects it with the group's
  options.  \<open>S\<close> is the set of addresses pooled so far.  \<open>failures\<close> lists the errors of the
  failing groups in configuration order, \<open>survivors\<close> the other groups.
\<close>

fun failures ::
  "constructor \<Rightarrow> duration \<Rightarrow> logger \<Rightarrow> resolver option \<Rightarrow> string set \<Rightarrow> UpstreamGroupConfig list \<Rightarrow> error list" where
  "failures a2u t l boot S [] = []"
| "failures a2u t l boot S (g # gs) =
     (if Address g \<in> S then failures a2u t l boot S gs
      else case a2u (Address g) (groupOptions t l boot g) of
             None \<Rightarrow> failures a2u t l boot (insert (Address g) S) gs
           | Some e \<Rightarrow> GroupError (Name g) e # failures a2u t l boot S gs)"

fun survivors ::
  "constructor \<Rightarrow> duration \<Rightarrow> logger \<Rightarrow> resolver option \<Rightarrow> string set \<Rightarrow> UpstreamGroupConfig list
   \<Rightarrow> UpstreamGroupConfig list" where
  "survivors a2u t l boot S [] = []"
| "survivors a2u t l boot S (g # gs) =
     (if Address g \<in> S then g # survivors a2u t l boot S gs
      else case a2u (Address g) (groupOptions t l boot g) of
             None \<Rightarrow> g # survivors a2u t l boot (insert (Address g) S) gs
           | Some e \<Rightarrow> survivors a2u t l boot S gs)"

subsection \<open>The loop's view of the pool\<close>

text \<open>
  \<open>running\<close>: the loop has not panicked and the default entry exists.
  \<open>poolInv n\<close>: the pool and the objects allocated from heap position \<open>n\<close> on correspond
  one to one (each pooled address names the object built from it, each such object is the one
  pooled under its address), and every handle in the table or the private configuration is
  pooled.
\<close>

definition running :: "build \<Rightarrow> bool" where
  "running b = (zeroPrefix \<in> dom (ups b) \<and> \<not> panicked b)"

definition poolInv :: "nat \<Rightarrow> build \<Rightarrow> bool" where
  "poolInv n b =
     ((\<forall>a h. upstreams b a = Some h \<longrightarrow>
          n \<le> h \<and> h < length (heap (wld b)) \<and> fst (heap (wld b) ! h) = a)
      \<and> (\<forall>h. n \<le> h \<and> h < length (heap (wld b)) \<longrightarrow>
          upstreams b (fst (heap (wld b) ! h)) = Some h)
      \<and> tableHandles (ups b) \<union> privateHandles (privateConf b) \<subseteq> ran (upstreams b))"

text \<open>
  Two loop states agree on everything but the error list and the call log.
\<close>

definition routingEq :: "build \<Rightarrow> build \<Rightarrow> bool" where
  "routingEq b b' =
     (ups b = ups b' \<and> privateConf b = privateConf b' \<and> upstreams b = upstreams b'
      \<and> heap (wld b) = heap (wld b') \<and> panicked b = panicked b')"

text \<open>
  Routing a list of groups with the handles of a given pool \<open>P\<close>: each group gets the handle
  pooled under its address (a group whose address is not pooled is skipped).
\<close>

definition routeAll :: "unicode \<Rightarrow> pool \<Rightarrow> build \<Rightarrow> UpstreamGroupConfig list \<Rightarrow> build" where
  "routeAll U P b gs =
     foldl (\<lambda>b g. case P (Address g) of None \<Rightarrow> b | Some u \<Rightarrow> routeGroup U g u b) b gs"

text \<open>The first group of a list with address \<open>a\<close> that the library accepts.\<close>

definition firstAccepted ::
  "constructor \<Rightarrow> duration \<Rightarrow> logger \<Rightarrow> resolver option \<Rightarrow> string \<Rightarrow> UpstreamGroupConfig list
   \<Rightarrow> UpstreamGroupConfig option" where
  "firstAccepted a2u t l boot a gs =
     find (\<lambda>g. Address g = a \<and> a2u (Address g) (groupOptions t l boot g) = None) gs"

text \<open>Two loop states hold the same table and private configuration.\<close>

definition tableEq :: "build \<Rightarrow> build \<Rightarrow> bool" where
  "tableEq b b' = (ups b = ups b' \<and> privateConf b = privateConf b' \<and> panicked b = panicked b')"

text \<open>Two groups that name the rejected address, and nothing else.\<close>

definition exBroken2 :: UpstreamGroupConfig where
  "exBroken2 = \<lparr>Name = ''broken2'', Address = ''bad://'', Match = []\<rparr>"

definition exBadConf :: UpstreamConfig where
  "exBadConf = \<lparr>Groups = [exBroken, exBroken2], UpstreamTimeout = 2000\<rparr>"

text \<open>The loop state at the end of the build of the example configuration.\<close>

definition exBuild :: build where
  "exBuild = buildLoop exA2U exUnicode (UpstreamTimeout exConf) [] None (initBuild exWorld) (Groups exConf)"

section \<open>Properties of the pool\<close>

lemma newUpstreamOrCached_hit:
  "addrToUps addr = Some u \<Longrightarrow>
   newUpstreamOrCached a2u addr addrToUps opts w = (Inr u, addrToUps, w)"
  by (simp add: newUpstreamOrCached_def)

lemma newUpstreamOrCached_fail:
  "addrToUps addr = None \<Longrightarrow> a2u addr opts = Some e \<Longrightarrow>
   newUpstreamOrCached a2u addr addrToUps opts w =
     (Inl e, addrToUps, w\<lparr>calls := calls w @ [(addr, opts)]\<rparr>)"
  by (simp add: newUpstreamOrCached_def AddressToUpstream_def)

lemma newUpstreamOrCached_new:
  "addrToUps addr = None \<Longrightarrow> a2u addr opts = None \<Longrightarrow>
   newUpstreamOrCached a2u addr addrToUps opts w =
     (Inr (length (heap w)), addrToUps(addr \<mapsto> length (heap w)),
      w\<lparr>calls := calls w @ [(addr, opts)], heap := heap w @ [(addr, opts)]\<rparr>)"
  by (simp add: newUpstreamOrCached_def AddressToUpstream_def)

text \<open>
  Claim C5.  A lookup of a cached address returns the cached handle, calls no constructor and
  leaves pool and world as they were.  A lookup of an absent address whose construction succeeds
  returns a fresh handle and stores it under exactly that address, every other key untouched.
  A lookup of an absent address whose construction fails returns the constructor's error with the
  pool unchanged and nothing allocated, and repeating the lookup calls the constructor again
  (the call log grows by one more entry for the same address).
\<close>

theorem pool_lookup_cases:
  "(addrToUps addr = Some u \<longrightarrow>
      newUpstreamOrCached a2u addr addrToUps opts w = (Inr u, addrToUps, w))
   \<and> (addrToUps addr = None \<and> a2u addr opts = None \<longrightarrow>
      newUpstreamOrCached a2u addr addrToUps opts w =
        (Inr (length (heap w)), addrToUps(addr \<mapsto> length (heap w)),
         w\<lparr>calls := calls w @ [(addr, opts)], heap := heap w @ [(addr, opts)]\<rparr>)
      \<and> (addrToUps(addr \<mapsto> length (heap w))) addr = Some (length (heap w))
      \<and> (\<forall>a. a \<noteq> addr \<longrightarrow> (addrToUps(addr \<mapsto> length (heap w))) a = addrToUps a))
   \<and> (addrToUps addr = None \<and> a2u addr opts = Some e \<longrightarrow>
      newUpstreamOrCached a2u addr addrToUps opts w =
        (Inl e, addrToUps, w\<lparr>calls := calls w @ [(addr, opts)]\<rparr>)
      \<and> heap (w\<lparr>calls := calls w @ [(addr, opts)]\<rparr>) = heap w
      \<and> calls (snd (snd (newUpstreamOrCached a2u addr addrToUps opts'
                  (w\<lparr>calls := calls w @ [(addr, opts)]\<rparr>))))
          = calls w @ [(addr, opts), (addr, opts')])"
  by (auto simp: newUpstreamOrCached_def AddressToUpstream_def Let_def split: option.splits)

theorem pool_lookup_cases_witness:
  "newUpstreamOrCached exA2U ''1.1.1.1'' [''1.1.1.1'' \<mapsto> 0] exOptions exWorld
     = (Inr 0, [''1.1.1.1'' \<mapsto> 0], exWorld)
   \<and> newUpstreamOrCached exA2U ''1.1.1.1'' Map.empty exOptions exWorld
     = (Inr 0, [''1.1.1.1'' \<mapsto> 0],
        \<lparr>heap = [(''1.1.1.1'', exOptions)], calls = [(''1.1.1.1'', exOptions)]\<rparr>)
   \<and> newUpstreamOrCached exA2U ''bad://'' Map.empty exOptions exWorld
     = (Inl (LibError ''unsupported scheme''), Map.empty,
        \<lparr>heap = [], calls = [(''bad://'', exOptions)]\<rparr>)
   \<and> calls (snd (snd (newUpstreamOrCached exA2U ''bad://'' Map.empty exOptions
        \<lparr>heap = [], calls = [(''bad://'', exOptions)]\<rparr>)))
     = [(''bad://'', exOptions), (''bad://'', exOptions)]"
  using pool_lookup_cases [where addrToUps = "[''1.1.1.1'' \<mapsto> 0]" and addr = "''1.1.1.1''"
          and u = 0 and a2u = exA2U and opts = exOptions and w = exWorld]
        pool_lookup_cases [where addrToUps = "Map.empty" and addr = "''1.1.1.1''"
          and a2u = exA2U and opts = exOptions and w = exWorld]
        pool_lookup_cases [where addrToUps = "Map.empty" and addr = "''bad://''"
          and a2u = exA2U and opts = exOptions and opts' = exOptions and w = exWorld
          and e = "LibError ''unsupported scheme''"]
  by (simp add: exA2U_def exWorld_def)

section \<open>The table keeps its default entry\<close>

lemma addMatch_dom: "dom (addMatch U u configs m) = insert (Client m) (dom configs)"
  by (auto simp: addMatch_def Let_def)

lemma addMatch_other: "p \<noteq> Client m \<Longrightarrow> addMatch U u configs m p = configs p"
  by (simp add: addMatch_def Let_def)

lemma foldl_addMatch_dom:
  "dom (foldl (addMatch U u) configs ms) = dom configs \<union> Client ` set ms"
  by (induction ms arbitrary: configs) (auto simp: addMatch_dom)

lemma addGroup_dom: "dom (addGroup U g configs u) = dom configs \<union> Client ` set (Match g)"
  by (simp add: addGroup_def foldl_addMatch_dom)



lemma groupStep_panicked: "panicked b \<Longrightarrow> groupStep a2u U t l boot b g = b"
  by (simp add: groupStep_def)

lemma groupStep_dom:
  "zeroPrefix \<in> dom (ups b) \<Longrightarrow> \<not> panicked b \<Longrightarrow>
   dom (ups b) \<subseteq> dom (ups (groupStep a2u U t l boot b g)) \<and> \<not> panicked (groupStep a2u U t l boot b g)"
  by (auto simp: groupStep_def routeGroup_def Let_def addGroup_dom split: prod.splits sum.splits option.splits)

lemma buildLoop_dom:
  "zeroPrefix \<in> dom (ups b) \<Longrightarrow> \<not> panicked b \<Longrightarrow>
   dom (ups b) \<subseteq> dom (ups (buildLoop a2u U t l boot b gs)) \<and> \<not> panicked (buildLoop a2u U t l boot b gs)"
proof (induction gs arbitrary: b)
  case Nil
  then show ?case by (simp add: buildLoop_def)
next
  case (Cons g gs)
  let ?b = "groupStep a2u U t l boot b g"
  from groupStep_dom [OF Cons.prems, of a2u U t l boot g]
  have s: "dom (ups b) \<subseteq> dom (ups ?b)" and np: "\<not> panicked ?b" by simp_all
  with Cons.prems have z: "zeroPrefix \<in> dom (ups ?b)" by blast
  from Cons.IH [OF z np] s show ?case by (auto simp: buildLoop_def)
qed

lemma initBuild_ok: "zeroPrefix \<in> dom (ups (initBuild w)) \<and> \<not> panicked (initBuild w)"
  by (simp add: initBuild_def)

lemma buildLoop_init_no_panic: "\<not> panicked (buildLoop a2u U t l boot (initBuild w) gs)"
  using buildLoop_dom [of "initBuild w"] initBuild_ok by blast

lemma newUpstreams_returns:
  "newUpstreams a2u U conf l boot w =
     (let b = buildLoop a2u U (UpstreamTimeout conf) l boot (initBuild w) (Groups conf)
      in Some ((ups b, privateConf b, Annotate (Join (errs b)) ''creating upstreams''), wld b))"
  by (simp add: newUpstreams_def Let_def buildLoop_init_no_panic)


lemma addMatch_Upstreams_extend:
  "\<exists>xs. Upstreams (entryAt (addMatch U u configs m) p) = Upstreams (entryAt configs p) @ xs"
  by (cases "p = Client m") (auto simp: addMatch_def Let_def entryAt_def split: option.splits)

lemma foldl_addMatch_Upstreams_extend:
  "\<exists>xs. Upstreams (entryAt (foldl (addMatch U u) configs ms) p) = Upstreams (entryAt configs p) @ xs"
proof (induction ms arbitrary: configs)
  case Nil
  show ?case by simp
next
  case (Cons m ms)
  obtain xs where a: "Upstreams (entryAt (addMatch U u configs m) p) = Upstreams (entryAt configs p) @ xs"
    using addMatch_Upstreams_extend by blast
  obtain ys where b: "Upstreams (entryAt (foldl (addMatch U u) (addMatch U u configs m) ms) p)
      = Upstreams (entryAt (addMatch U u configs m) p) @ ys"
    using Cons.IH by blast
  show ?case using a b by simp
qed

lemma groupStep_Upstreams_extend:
  "\<exists>xs. Upstreams (entryAt (ups (groupStep a2u U t l boot b g)) p) = Upstreams (entryAt (ups b) p) @ xs"
proof (cases "panicked b")
  case True
  then show ?thesis by (simp add: groupStep_panicked)
next
  case False
  obtain r cache w where r: "newUpstreamOrCached a2u (Address g) (upstreams b) (groupOptions t l boot g) (wld b) = (r, cache, w)"
    by (metis prod_cases3)
  show ?thesis
  proof (cases r)
    case (Inl e)
    with False r show ?thesis by (simp add: groupStep_def)
  next
    case (Inr u)
    consider (d) "Name g = UpstreamGroupNameDefault"
      | (p) "Name g \<noteq> UpstreamGroupNameDefault" "Name g = UpstreamGroupNamePrivate"
      | (o) "Name g \<noteq> UpstreamGroupNameDefault" "Name g \<noteq> UpstreamGroupNamePrivate" by blast
    then show ?thesis
    proof cases
      case d
      with False r Inr show ?thesis
        by (cases "p = zeroPrefix") (auto simp: groupStep_def routeGroup_def Let_def entryAt_def split: option.splits)
    next
      case p
      with False r Inr show ?thesis by (simp add: groupStep_def routeGroup_def Let_def)
    next
      case o
      with False r Inr show ?thesis
        using foldl_addMatch_Upstreams_extend [of U u "ups b" "Match g" p]
        by (simp add: groupStep_def routeGroup_def Let_def addGroup_def)
    qed
  qed
qed

text \<open>
  Claim C7.  \<^verbatim>\<open>newUpstreams\<close> returns (it does not panic) for every configuration, constructor
  and starting world, and the returned table has an entry under the zero prefix.  The entry is
  there before the first group is processed, and processing a group keeps it: the key stays and
  the catch-all list of the entry is the old list with upstreams appended.
\<close>

theorem default_entry_always_present:
  "(case newUpstreams a2u U conf l boot w of
      None \<Rightarrow> False
    | Some ((table, priv, err), w') \<Rightarrow> zeroPrefix \<in> dom table)
   \<and> ups (initBuild w) = [zeroPrefix \<mapsto> emptyConfig]
   \<and> (zeroPrefix \<in> dom (ups b) \<and> \<not> panicked b \<longrightarrow>
        zeroPrefix \<in> dom (ups (groupStep a2u U t l boot b g))
        \<and> \<not> panicked (groupStep a2u U t l boot b g)
        \<and> (\<exists>xs. Upstreams (entryAt (ups (groupStep a2u U t l boot b g)) zeroPrefix)
                  = Upstreams (entryAt (ups b) zeroPrefix) @ xs))"
proof (intro conjI impI)
  have "zeroPrefix \<in> dom (ups (buildLoop a2u U (UpstreamTimeout conf) l boot (initBuild w) (Groups conf)))"
    using buildLoop_dom [of "initBuild w" a2u U "UpstreamTimeout conf" l boot "Groups conf"] initBuild_ok [of w]
    by blast
  then show "case newUpstreams a2u U conf l boot w of
      None \<Rightarrow> False
    | Some ((table, priv, err), w') \<Rightarrow> zeroPrefix \<in> dom table"
    by (simp add: newUpstreams_returns Let_def)
next
  show "ups (initBuild w) = [zeroPrefix \<mapsto> emptyConfig]" by (simp add: initBuild_def)
next
  assume a: "zeroPrefix \<in> dom (ups b) \<and> \<not> panicked b"
  with groupStep_dom [of b a2u U t l boot g]
  show "zeroPrefix \<in> dom (ups (groupStep a2u U t l boot b g))" by blast
  from a groupStep_dom [of b a2u U t l boot g]
  show "\<not> panicked (groupStep a2u U t l boot b g)" by blast
  show "\<exists>xs. Upstreams (entryAt (ups (groupStep a2u U t l boot b g)) zeroPrefix)
                  = Upstreams (entryAt (ups b) zeroPrefix) @ xs"
    by (rule groupStep_Upstreams_extend)
qed


theorem default_entry_always_present_witness:
  "zeroPrefix \<in> dom (ups (initBuild exWorld)) \<and> \<not> panicked (initBuild exWorld)
   \<and> zeroPrefix \<in> dom (ups (groupStep exA2U exUnicode 2000 [] None (initBuild exWorld) exDefault))
   \<and> \<not> panicked (groupStep exA2U exUnicode 2000 [] None (initBuild exWorld) exDefault)"
  using default_entry_always_present [where b = "initBuild exWorld" and a2u = exA2U and U = exUnicode
          and t = 2000 and l = "[]" and boot = None and g = exDefault]
  by (simp add: initBuild_def)

section \<open>The two domain maps\<close>

lemma addMatch_maps_equal:
  assumes "\<forall>p e. configs p = Some e \<longrightarrow> DomainReservedUpstreams e = SpecifiedDomainUpstreams e"
  shows "\<forall>p e. addMatch U u configs m p = Some e \<longrightarrow> DomainReservedUpstreams e = SpecifiedDomainUpstreams e"
proof (intro allI impI)
  fix p e assume a: "addMatch U u configs m p = Some e"
  show "DomainReservedUpstreams e = SpecifiedDomainUpstreams e"
  proof (cases "p = Client m")
    case False
    with a assms show ?thesis by (simp add: addMatch_other)
  next
    case True
    have c: "DomainReservedUpstreams (entryAt configs (Client m)) = SpecifiedDomainUpstreams (entryAt configs (Client m))"
      using assms by (auto simp: entryAt_def emptyConfig_def split: option.splits)
    from a True have "e = (if QuestionDomain m = [] then (entryAt configs (Client m))\<lparr>Upstreams := Upstreams (entryAt configs (Client m)) @ [u]\<rparr>
       else (entryAt configs (Client m))\<lparr>DomainReservedUpstreams := Some (appendAt (orEmptyMap (DomainReservedUpstreams (entryAt configs (Client m)))) (normalize U (QuestionDomain m)) u),
                    SpecifiedDomainUpstreams := Some (appendAt (orEmptyMap (SpecifiedDomainUpstreams (entryAt configs (Client m)))) (normalize U (QuestionDomain m)) u)\<rparr>)"
      by (auto simp: addMatch_def Let_def entryAt_def split: if_splits)
    with c show ?thesis by (simp split: if_splits)
  qed
qed

lemma foldl_addMatch_maps_equal:
  "\<forall>p e. configs p = Some e \<longrightarrow> DomainReservedUpstreams e = SpecifiedDomainUpstreams e \<Longrightarrow>
   \<forall>p e. foldl (addMatch U u) configs ms p = Some e \<longrightarrow> DomainReservedUpstreams e = SpecifiedDomainUpstreams e"
proof (induction ms arbitrary: configs)
  case Nil
  then show ?case by simp
next
  case (Cons m ms)
  from Cons.IH [OF addMatch_maps_equal [OF Cons.prems]] show ?case by simp
qed

lemma addGroup_maps_equal:
  "\<forall>p e. configs p = Some e \<longrightarrow> DomainReservedUpstreams e = SpecifiedDomainUpstreams e \<Longrightarrow>
   \<forall>p e. addGroup U g configs u p = Some e \<longrightarrow> DomainReservedUpstreams e = SpecifiedDomainUpstreams e"
  unfolding addGroup_def by (rule foldl_addMatch_maps_equal)

lemma groupStep_maps_equal:
  assumes "\<forall>p e. ups b p = Some e \<longrightarrow> DomainReservedUpstreams e = SpecifiedDomainUpstreams e"
  shows "\<forall>p e. ups (groupStep a2u U t l boot b g) p = Some e \<longrightarrow> DomainReservedUpstreams e = SpecifiedDomainUpstreams e"
proof (cases "panicked b")
  case True
  with assms show ?thesis by (simp add: groupStep_panicked)
next
  case False
  obtain r cache w where r: "newUpstreamOrCached a2u (Address g) (upstreams b) (groupOptions t l boot g) (wld b) = (r, cache, w)"
    by (metis prod_cases3)
  show ?thesis
  proof (cases r)
    case (Inl e)
    with False r assms show ?thesis by (simp add: groupStep_def)
  next
    case (Inr u)
    consider (d) "Name g = UpstreamGroupNameDefault"
      | (p) "Name g \<noteq> UpstreamGroupNameDefault" "Name g = UpstreamGroupNamePrivate"
      | (o) "Name g \<noteq> UpstreamGroupNameDefault" "Name g \<noteq> UpstreamGroupNamePrivate" by blast
    then show ?thesis
    proof cases
      case d
      with False r Inr assms show ?thesis
        by (auto simp: groupStep_def routeGroup_def Let_def split: option.splits if_splits)
    next
      case p
      with False r Inr assms show ?thesis by (simp add: groupStep_def routeGroup_def Let_def)
    next
      case o
      with False r Inr show ?thesis
        using addGroup_maps_equal [OF assms, of U g u]
        by (simp add: groupStep_def routeGroup_def Let_def)
    qed
  qed
qed

lemma buildLoop_maps_equal:
  "\<forall>p e. ups b p = Some e \<longrightarrow> DomainReservedUpstreams e = SpecifiedDomainUpstreams e \<Longrightarrow>
   \<forall>p e. ups (buildLoop a2u U t l boot b gs) p = Some e \<longrightarrow> DomainReservedUpstreams e = SpecifiedDomainUpstreams e"
proof (induction gs arbitrary: b)
  case Nil
  then show ?case by (simp add: buildLoop_def)
next
  case (Cons g gs)
  from Cons.IH [OF groupStep_maps_equal [OF Cons.prems]] show ?case by (simp add: buildLoop_def)
qed

text \<open>
  Claim C3.  In the table that \<^verbatim>\<open>newUpstreams\<close> returns, the reserved-domain map and the
  specified-domain map of every client entry are equal.  The step behind it: a criterion with a
  non-empty domain suffix, applied to an entry whose two maps are equal, leaves them equal, and
  each map reads, under the normalised domain, its old list with the upstream appended.
\<close>

theorem domain_maps_equal:
  "(case newUpstreams a2u U conf l boot w of
      None \<Rightarrow> False
    | Some ((table, priv, err), w') \<Rightarrow>
        \<forall>p e. table p = Some e \<longrightarrow> DomainReservedUpstreams e = SpecifiedDomainUpstreams e)
   \<and> (QuestionDomain m \<noteq> [] \<longrightarrow>
        DomainReservedUpstreams (entryAt configs (Client m)) = SpecifiedDomainUpstreams (entryAt configs (Client m)) \<longrightarrow>
        DomainReservedUpstreams (entryAt (addMatch U u configs m) (Client m))
          = SpecifiedDomainUpstreams (entryAt (addMatch U u configs m) (Client m))
        \<and> domainUpstreams (DomainReservedUpstreams (entryAt (addMatch U u configs m) (Client m))) (normalize U (QuestionDomain m))
          = domainUpstreams (DomainReservedUpstreams (entryAt configs (Client m))) (normalize U (QuestionDomain m)) @ [u]
        \<and> domainUpstreams (SpecifiedDomainUpstreams (entryAt (addMatch U u configs m) (Client m))) (normalize U (QuestionDomain m))
          = domainUpstreams (SpecifiedDomainUpstreams (entryAt configs (Client m))) (normalize U (QuestionDomain m)) @ [u])"
proof (intro conjI impI)
  have i: "\<forall>p e. ups (initBuild w) p = Some e \<longrightarrow> DomainReservedUpstreams e = SpecifiedDomainUpstreams e"
    by (simp add: initBuild_def emptyConfig_def)
  from buildLoop_maps_equal [OF i]
  show "case newUpstreams a2u U conf l boot w of
      None \<Rightarrow> False
    | Some ((table, priv, err), w') \<Rightarrow>
        \<forall>p e. table p = Some e \<longrightarrow> DomainReservedUpstreams e = SpecifiedDomainUpstreams e"
    by (simp add: newUpstreams_returns Let_def)
next
  assume d: "QuestionDomain m \<noteq> []"
    and e: "DomainReservedUpstreams (entryAt configs (Client m)) = SpecifiedDomainUpstreams (entryAt configs (Client m))"
  from d e show "DomainReservedUpstreams (entryAt (addMatch U u configs m) (Client m))
          = SpecifiedDomainUpstreams (entryAt (addMatch U u configs m) (Client m))"
    by (simp add: addMatch_def Let_def entryAt_def)
  from d show "domainUpstreams (DomainReservedUpstreams (entryAt (addMatch U u configs m) (Client m))) (normalize U (QuestionDomain m))
          = domainUpstreams (DomainReservedUpstreams (entryAt configs (Client m))) (normalize U (QuestionDomain m)) @ [u]"
    by (simp add: addMatch_def Let_def entryAt_def domainUpstreams_def appendAt_def orEmptyMap_def split: option.splits)
  from d show "domainUpstreams (SpecifiedDomainUpstreams (entryAt (addMatch U u configs m) (Client m))) (normalize U (QuestionDomain m))
          = domainUpstreams (SpecifiedDomainUpstreams (entryAt configs (Client m))) (normalize U (QuestionDomain m)) @ [u]"
    by (simp add: addMatch_def Let_def entryAt_def domainUpstreams_def appendAt_def orEmptyMap_def split: option.splits)
qed


text \<open>The configuration file's example domain, normalised.\<close>

lemma ex_normalize: "normalize exUnicode ''MyCompany.LOCAL'' = ''mycompany.local.''"
  by code_simp

theorem domain_maps_equal_witness:
  "(case newUpstreams exA2U exUnicode exConf [] None exWorld of
      None \<Rightarrow> False
    | Some ((table, priv, err), w') \<Rightarrow>
        (\<exists>e. table zeroPrefix = Some e \<and> DomainReservedUpstreams e = SpecifiedDomainUpstreams e))
   \<and> domainUpstreams (DomainReservedUpstreams (entryAt
        (addMatch exUnicode 7 [zeroPrefix \<mapsto> emptyConfig]
           \<lparr>Client = zeroPrefix, QuestionDomain = ''MyCompany.LOCAL''\<rparr>) zeroPrefix))
        ''mycompany.local.'' = [7]
   \<and> domainUpstreams (SpecifiedDomainUpstreams (entryAt
        (addMatch exUnicode 7 [zeroPrefix \<mapsto> emptyConfig]
           \<lparr>Client = zeroPrefix, QuestionDomain = ''MyCompany.LOCAL''\<rparr>) zeroPrefix))
        ''mycompany.local.'' = [7]"
proof -
  let ?b = "buildLoop exA2U exUnicode (UpstreamTimeout exConf) [] None (initBuild exWorld) (Groups exConf)"
  have r: "newUpstreams exA2U exUnicode exConf [] None exWorld
      = Some ((ups ?b, privateConf ?b, Annotate (Join (errs ?b)) ''creating upstreams''), wld ?b)"
    by (simp add: newUpstreams_returns Let_def)
  have "zeroPrefix \<in> dom (ups ?b)"
    using buildLoop_dom [of "initBuild exWorld"] initBuild_ok [of exWorld] by blast
  then obtain e where e: "ups ?b zeroPrefix = Some e" by blast
  have "\<forall>p e. ups ?b p = Some e \<longrightarrow> DomainReservedUpstreams e = SpecifiedDomainUpstreams e"
    using domain_maps_equal [where a2u = exA2U and U = exUnicode and conf = exConf and l = "[]"
        and boot = None and w = exWorld] r by simp
  with e r have first: "case newUpstreams exA2U exUnicode exConf [] None exWorld of
      None \<Rightarrow> False
    | Some ((table, priv, err), w') \<Rightarrow>
        (\<exists>e. table zeroPrefix = Some e \<and> DomainReservedUpstreams e = SpecifiedDomainUpstreams e)"
    by simp
  have second: "domainUpstreams (DomainReservedUpstreams (entryAt
        (addMatch exUnicode 7 [zeroPrefix \<mapsto> emptyConfig]
           \<lparr>Client = zeroPrefix, QuestionDomain = ''MyCompany.LOCAL''\<rparr>) zeroPrefix))
        ''mycompany.local.'' = [7]
   \<and> domainUpstreams (SpecifiedDomainUpstreams (entryAt
        (addMatch exUnicode 7 [zeroPrefix \<mapsto> emptyConfig]
           \<lparr>Client = zeroPrefix, QuestionDomain = ''MyCompany.LOCAL''\<rparr>) zeroPrefix))
        ''mycompany.local.'' = [7]"
    using domain_maps_equal [where U = exUnicode and u = 7 and configs = "[zeroPrefix \<mapsto> emptyConfig]"
        and m = "\<lparr>Client = zeroPrefix, QuestionDomain = ''MyCompany.LOCAL''\<rparr>"]
    by (simp add: ex_normalize entryAt_def emptyConfig_def domainUpstreams_def orEmptyMap_def)
  from first second show ?thesis by blast
qed

section \<open>What one match criterion changes\<close>




section \<open>The bootstrap chain\<close>

lemma upt_shift: "[n ..< Suc (n + k)] = n # [Suc n ..< Suc (n + k)]"
  by (simp add: upt_conv_Cons del: upt_Suc)

lemma resolversLoop_eq:
  "resolversLoop nur str opts i addrs c =
     c\<lparr>resolvers := resolvers c
          @ map (\<lambda>h. CachingResolver (UpstreamResolver h))
              [length (heap (rwld c)) ..< length (heap (rwld c)) + length (accepted nur str opts addrs)],
       closers := closers c
          @ [length (heap (rwld c)) ..< length (heap (rwld c)) + length (accepted nur str opts addrs)],
       rerrs := rerrs c @ rejected nur str opts i addrs,
       rwld := \<lparr>heap = heap (rwld c) @ map (\<lambda>a. (str a, opts)) (accepted nur str opts addrs),
                calls = calls (rwld c) @ map (\<lambda>a. (str a, opts)) addrs\<rparr>\<rparr>"
proof (induction addrs arbitrary: i c)
  case Nil
  show ?case by (simp add: accepted_def)
next
  case (Cons a addrs)
  show ?case
  proof (cases "nur (str a) opts")
    case None
    then show ?thesis
      by (simp add: Cons.IH NewUpstreamResolver_def Let_def accepted_def upt_shift del: upt_Suc)
  next
    case (Some e)
    then show ?thesis
      by (simp add: Cons.IH NewUpstreamResolver_def Let_def accepted_def)
  qed
qed

lemma rejected_set:
  "IndexError i e \<in> set (rejected nur str opts k addrs)
     \<longleftrightarrow> (k \<le> i \<and> i - k < length addrs \<and> nur (str (addrs ! (i - k))) opts = Some e)"
proof (induction addrs arbitrary: k)
  case Nil
  show ?case by simp
next
  case (Cons a addrs)
  show ?case
  proof (cases "i = k")
    case True
    with Cons.IH [of "Suc k"] show ?thesis by (auto split: option.splits)
  next
    case False
    have "(Suc k \<le> i \<and> i - Suc k < length addrs \<and> nur (str (addrs ! (i - Suc k))) opts = Some e)
        \<longleftrightarrow> (k \<le> i \<and> i - k < length (a # addrs) \<and> nur (str ((a # addrs) ! (i - k))) opts = Some e)"
    proof (cases "k < i")
      case True
      then obtain d where "i = Suc (k + d)" using less_iff_Suc_add by blast
      then show ?thesis by simp
    next
      case nl: False
      with False show ?thesis by simp
    qed
    with False Cons.IH [of "Suc k"] show ?thesis by (auto split: option.splits)
  qed
qed

lemma accepted_nth_heap:
  "j < length ok \<Longrightarrow>
   (h @ map f ok) ! ([length h ..< length h + length ok] ! j) = f (ok ! j)"
  by (simp add: nth_append)

text \<open>
  Claim C6.  \<^verbatim>\<open>newResolvers\<close> returns one caching resolver per accepted address, in input
  order, each wrapping a freshly allocated upstream; the closers are exactly those upstreams, in
  the same order, so both lists have the length of the accepted addresses, and the upstream at
  position \<open>j\<close> was built from the \<open>j\<close>-th accepted address.  The joined error lists, in
  input order, the error of every rejected address under its index in the whole list, and
  nothing else.  When no address is accepted, the chain and the closers are empty.
\<close>

theorem newResolvers_chain:
  "(let opts = bootstrapOptions conf l;
        ok = accepted nur str opts (Addresses conf);
        hs = [length (heap w) ..< length (heap w) + length ok];
        w' = \<lparr>heap = heap w @ map (\<lambda>a. (str a, opts)) ok,
              calls = calls w @ map (\<lambda>a. (str a, opts)) (Addresses conf)\<rparr>
    in newResolvers nur str conf l w =
         ((ConsequentResolver (map (\<lambda>h. CachingResolver (UpstreamResolver h)) hs), hs,
           Annotate (Join (rejected nur str opts 0 (Addresses conf))) ''creating bootstraps''), w')
       \<and> length hs = length ok
       \<and> (\<forall>j < length ok. heap w' ! (hs ! j) = (str (ok ! j), opts))
       \<and> (\<forall>i e. IndexError i e \<in> set (rejected nur str opts 0 (Addresses conf))
             \<longleftrightarrow> i < length (Addresses conf) \<and> nur (str (Addresses conf ! i)) opts = Some e)
       \<and> ((\<forall>a \<in> set (Addresses conf). nur (str a) opts \<noteq> None) \<longrightarrow>
             fst (newResolvers nur str conf l w) = (ConsequentResolver [], [],
               Annotate (Join (rejected nur str opts 0 (Addresses conf))) ''creating bootstraps'')))"
proof -
  define opts where "opts = bootstrapOptions conf l"
  define ok where "ok = accepted nur str opts (Addresses conf)"
  define hs where "hs = [length (heap w) ..< length (heap w) + length ok]"
  define w' where "w' = \<lparr>heap = heap w @ map (\<lambda>a. (str a, opts)) ok,
              calls = calls w @ map (\<lambda>a. (str a, opts)) (Addresses conf)\<rparr>"
  have run: "newResolvers nur str conf l w =
         ((ConsequentResolver (map (\<lambda>h. CachingResolver (UpstreamResolver h)) hs), hs,
           Annotate (Join (rejected nur str opts 0 (Addresses conf))) ''creating bootstraps''), w')"
    by (simp add: newResolvers_def resolversLoop_eq Let_def opts_def ok_def hs_def w'_def)
  have len: "length hs = length ok" by (simp add: hs_def)
  have nth: "\<forall>j < length ok. heap w' ! (hs ! j) = (str (ok ! j), opts)"
    using accepted_nth_heap [of _ ok "heap w" "\<lambda>a. (str a, opts)"] by (simp add: w'_def hs_def)
  have rej: "\<forall>i e. IndexError i e \<in> set (rejected nur str opts 0 (Addresses conf))
             \<longleftrightarrow> i < length (Addresses conf) \<and> nur (str (Addresses conf ! i)) opts = Some e"
    by (simp add: rejected_set)
  have none: "(\<forall>a \<in> set (Addresses conf). nur (str a) opts \<noteq> None) \<longrightarrow>
             fst (newResolvers nur str conf l w) = (ConsequentResolver [], [],
               Annotate (Join (rejected nur str opts 0 (Addresses conf))) ''creating bootstraps'')"
  proof
    assume "\<forall>a \<in> set (Addresses conf). nur (str a) opts \<noteq> None"
    then have "ok = []" by (simp add: ok_def accepted_def)
    then show "fst (newResolvers nur str conf l w) = (ConsequentResolver [], [],
               Annotate (Join (rejected nur str opts 0 (Addresses conf))) ''creating bootstraps'')"
      by (simp add: run hs_def)
  qed
  from run len nth rej none show ?thesis
    unfolding Let_def opts_def [symmetric] ok_def [symmetric] hs_def [symmetric] w'_def [symmetric]
    by blast
qed

theorem newResolvers_chain_witness:
  "fst (newResolvers exNUR exStr exBootstrap [] exWorld)
     = (ConsequentResolver [CachingResolver (UpstreamResolver 0), CachingResolver (UpstreamResolver 1)],
        [0, 1],
        Some (Annotated ''creating bootstraps'' (Joined [IndexError 0 (LibError ''not an ip:port'')])))
   \<and> map fst (heap (snd (newResolvers exNUR exStr exBootstrap [] exWorld))) = [''8.8.8.8:53'', ''8.8.4.4:53'']
   \<and> heap (snd (newResolvers exNUR exStr exBootstrap [] exWorld)) ! 1
     = (''8.8.4.4:53'', bootstrapOptions exBootstrap [])
   \<and> fst (newResolvers exNUR exStr \<lparr>Addresses = [AddrPort 0 z0 0], BootstrapTimeout = 2000\<rparr> [] exWorld)
     = (ConsequentResolver [], [],
        Some (Annotated ''creating bootstraps'' (Joined [IndexError 0 (LibError ''not an ip:port'')])))"
  using newResolvers_chain [where nur = exNUR and str = exStr and conf = exBootstrap and l = "[]" and w = exWorld]
        newResolvers_chain [where nur = exNUR and str = exStr
          and conf = "\<lparr>Addresses = [AddrPort 0 z0 0], BootstrapTimeout = 2000\<rparr>" and l = "[]" and w = exWorld]
  by (simp add: Let_def accepted_def exNUR_def exStr_def exBootstrap_def exWorld_def Join_def)


section \<open>The bind retry executor\<close>

lemma retries_empty: "retries bind interval i i = []"
  by (simp add: retries_def)

lemma retries_step:
  "i < j \<Longrightarrow> retries bind interval i j = Sleep interval # Attempt (bind i) # retries bind interval (Suc i) j"
  by (simp add: retries_def upt_conv_Cons)

lemma attemptCount_retries: "attemptCount (retries bind interval i j) = j - i"
proof (induction "j - i" arbitrary: i)
  case 0
  then show ?case by (simp add: retries_def attemptCount_def)
next
  case (Suc n)
  then have "i < j" and "n = j - Suc i" by simp_all
  with Suc.hyps(1) [of "Suc i"] show ?case
    by (simp add: retries_step attemptCount_def)
qed

lemma retryLoop_all_fail:
  "\<forall>j. k \<le> j \<and> j < k + n \<longrightarrow> bind j \<noteq> None \<Longrightarrow>
   retryLoop bind interval n k err tr =
     (if n = 0 then Some err else bind (k + n - 1), tr @ retries bind interval k (k + n))"
proof (induction n arbitrary: k err tr)
  case 0
  show ?case by (simp add: retries_empty)
next
  case (Suc n)
  from Suc.prems have "bind k \<noteq> None" by simp
  then obtain e where e: "bind k = Some e" by blast
  have rest: "\<forall>j. Suc k \<le> j \<and> j < Suc k + n \<longrightarrow> bind j \<noteq> None" using Suc.prems by simp
  show ?case
    using Suc.IH [OF rest, of e "tr @ [Sleep interval, Attempt (Some e)]"] e
    by (simp add: retries_step [of k "Suc (k + n)"])
qed

lemma retryLoop_success:
  "k \<le> j \<Longrightarrow> j < k + n \<Longrightarrow> bind j = None \<Longrightarrow> \<forall>i. k \<le> i \<and> i < j \<longrightarrow> bind i \<noteq> None \<Longrightarrow>
   retryLoop bind interval n k err tr = (None, tr @ retries bind interval k (Suc j))"
proof (induction n arbitrary: k err tr)
  case 0
  then show ?case by simp
next
  case (Suc n)
  show ?case
  proof (cases "j = k")
    case True
    with Suc.prems show ?thesis by (simp add: retries_step retries_empty)
  next
    case False
    with Suc.prems have kj: "Suc k \<le> j" and b: "bind k \<noteq> None" by simp_all
    then obtain e where e: "bind k = Some e" by blast
    have rest: "\<forall>i. Suc k \<le> i \<and> i < j \<longrightarrow> bind i \<noteq> None" using Suc.prems by simp
    from Suc.prems have lt: "j < Suc k + n" by simp
    show ?thesis
      using Suc.IH [OF kj lt Suc.prems(3) rest, of e "tr @ [Sleep interval, Attempt (Some e)]"] e kj
      by (simp add: retries_step [of k "Suc j"])
  qed
qed

text \<open>
  Claim C8.  For a configuration converted by \<^verbatim>\<open>toInternal\<close>: with retry disabled the
  executor makes exactly one bind attempt and returns its result, whatever the count.  With retry
  enabled and a bind function that always fails, it makes count + 1 attempts, sleeps the
  configured interval before each retry, and returns the error of the last attempt.  When attempt
  number \<open>j\<close> is the first to succeed (and is within the attempts allowed), success is
  returned after exactly \<open>j + 1\<close> attempts.
\<close>

theorem bind_retry_executor:
  "(\<not> Enabled c \<longrightarrow>
      bindWithRetry bind (toInternal c) = (bind 0, [Attempt (bind 0)])
      \<and> attemptCount (snd (bindWithRetry bind (toInternal c))) = 1)
   \<and> (Enabled c \<and> (\<forall>k. bind k \<noteq> None) \<longrightarrow>
      bindWithRetry bind (toInternal c)
        = (bind (unat (Count c)), Attempt (bind 0) # retries bind (Interval c) 1 (Suc (unat (Count c))))
      \<and> attemptCount (snd (bindWithRetry bind (toInternal c))) = unat (Count c) + 1)
   \<and> (bind j = None \<and> (\<forall>i < j. bind i \<noteq> None) \<and> (j = 0 \<or> Enabled c \<and> j \<le> unat (Count c)) \<longrightarrow>
      bindWithRetry bind (toInternal c) = (None, Attempt (bind 0) # retries bind (Interval c) 1 (Suc j))
      \<and> attemptCount (snd (bindWithRetry bind (toInternal c))) = j + 1)"
proof (intro conjI impI)
  assume d: "\<not> Enabled c"
  then show r: "bindWithRetry bind (toInternal c) = (bind 0, [Attempt (bind 0)])"
    by (simp add: bindWithRetry_def toInternal_def split: option.splits)
  show "attemptCount (snd (bindWithRetry bind (toInternal c))) = 1"
    by (simp add: r attemptCount_def)
next
  assume a: "Enabled c \<and> (\<forall>k. bind k \<noteq> None)"
  then obtain e where e: "bind 0 = Some e" by blast
  have f: "\<forall>j. 1 \<le> j \<and> j < 1 + unat (Count c) \<longrightarrow> bind j \<noteq> None" using a by simp
  show r: "bindWithRetry bind (toInternal c)
        = (bind (unat (Count c)), Attempt (bind 0) # retries bind (Interval c) 1 (Suc (unat (Count c))))"
    using a e retryLoop_all_fail [OF f, of "Interval c" e "[Attempt (Some e)]"]
    by (simp add: bindWithRetry_def toInternal_def)
  show "attemptCount (snd (bindWithRetry bind (toInternal c))) = unat (Count c) + 1"
    using attemptCount_retries [of bind "Interval c" 1 "Suc (unat (Count c))"]
    by (simp add: r attemptCount_def)
next
  assume a: "bind j = None \<and> (\<forall>i < j. bind i \<noteq> None) \<and> (j = 0 \<or> Enabled c \<and> j \<le> unat (Count c))"
  show r: "bindWithRetry bind (toInternal c) = (None, Attempt (bind 0) # retries bind (Interval c) 1 (Suc j))"
  proof (cases "j = 0")
    case True
    with a show ?thesis by (simp add: bindWithRetry_def retries_empty)
  next
    case False
    with a have en: "Enabled c" and le: "j \<le> unat (Count c)" and j1: "1 \<le> j" by simp_all
    from False a obtain e where e: "bind 0 = Some e" by auto
    have lt: "j < 1 + unat (Count c)" using le by simp
    have bj: "bind j = None" using a by simp
    have rest: "\<forall>i. 1 \<le> i \<and> i < j \<longrightarrow> bind i \<noteq> None" using a by simp
    show ?thesis
      using en e retryLoop_success [OF j1 lt bj rest, of "Interval c" e "[Attempt (Some e)]"]
      by (simp add: bindWithRetry_def toInternal_def)
  qed
  show "attemptCount (snd (bindWithRetry bind (toInternal c))) = j + 1"
    using attemptCount_retries [of bind "Interval c" 1 "Suc j"]
    by (simp add: r attemptCount_def)
qed

theorem bind_retry_executor_witness:
  "bindWithRetry exBindFails (toInternal (exRetry\<lparr>Enabled := False\<rparr>))
     = (Some (LibError []), [Attempt (Some (LibError []))])
   \<and> fst (bindWithRetry exBindFails (toInternal exRetry)) = Some (LibError ''xxxx'')
   \<and> attemptCount (snd (bindWithRetry exBindFails (toInternal exRetry))) = 5
   \<and> bindWithRetry exBindThird (toInternal exRetry)
     = (None, [Attempt (Some (LibError [])), Sleep 1000000000, Attempt (Some (LibError ''x'')),
               Sleep 1000000000, Attempt None])"
proof -
  have h1: "\<forall>k. exBindFails k \<noteq> None" by (simp add: exBindFails_def)
  have e0: "exBindFails 0 = Some (LibError [])" by code_simp
  have e4: "exBindFails 4 = Some (LibError ''xxxx'')" by code_simp
  have t0: "exBindThird 0 = Some (LibError [])" by code_simp
  have h3: "exBindThird 2 = None \<and> (\<forall>i < 2. exBindThird i \<noteq> None)" by (simp add: exBindThird_def)
  have t: "retries exBindThird 1000000000 (Suc 0) 3
      = [Sleep 1000000000, Attempt (Some (LibError ''x'')), Sleep 1000000000, Attempt None]"
    by code_simp
  show ?thesis
    using bind_retry_executor [where c = "exRetry\<lparr>Enabled := False\<rparr>" and bind = exBindFails]
          bind_retry_executor [where c = exRetry and bind = exBindFails]
          bind_retry_executor [where c = exRetry and bind = exBindThird and j = 2]
    by (auto simp: exRetry_def h1 e0 e4 t0 h3 t)
qed


section \<open>The domain key\<close>



















section \<open>The pool during a build\<close>

lemma groupStep_hit:
  "\<not> panicked b \<Longrightarrow> upstreams b (Address g) = Some u \<Longrightarrow>
   groupStep a2u U t l boot b g = routeGroup U g u b"
  by (simp add: groupStep_def newUpstreamOrCached_hit)

lemma groupStep_new:
  "\<not> panicked b \<Longrightarrow> upstreams b (Address g) = None \<Longrightarrow> a2u (Address g) (groupOptions t l boot g) = None \<Longrightarrow>
   groupStep a2u U t l boot b g =
     routeGroup U g (length (heap (wld b)))
       (b\<lparr>upstreams := (upstreams b)(Address g \<mapsto> length (heap (wld b))),
          wld := (wld b)\<lparr>calls := calls (wld b) @ [(Address g, groupOptions t l boot g)],
                         heap := heap (wld b) @ [(Address g, groupOptions t l boot g)]\<rparr>\<rparr>)"
  by (simp add: groupStep_def newUpstreamOrCached_new)

lemma groupStep_fail:
  "\<not> panicked b \<Longrightarrow> upstreams b (Address g) = None \<Longrightarrow> a2u (Address g) (groupOptions t l boot g) = Some e \<Longrightarrow>
   groupStep a2u U t l boot b g =
     b\<lparr>wld := (wld b)\<lparr>calls := calls (wld b) @ [(Address g, groupOptions t l boot g)]\<rparr>,
       errs := errs b @ [GroupError (Name g) e]\<rparr>"
  by (simp add: groupStep_def newUpstreamOrCached_fail)

lemma routeGroup_keeps:
  "upstreams (routeGroup U g u b) = upstreams b"
  "wld (routeGroup U g u b) = wld b"
  "errs (routeGroup U g u b) = errs b"
  by (simp_all add: routeGroup_def Let_def split: option.splits)

lemma domainUpstreams_appendAt:
  "domainUpstreams (Some (appendAt (orEmptyMap mo) d u)) k
     = (if k = d then domainUpstreams mo d @ [u] else domainUpstreams mo k)"
  by (simp add: domainUpstreams_def appendAt_def orEmptyMap_def split: option.splits)

lemma entryHandles_empty: "entryHandles emptyConfig = {}"
  by (simp add: entryHandles_def emptyConfig_def domainUpstreams_def orEmptyMap_def)

lemma addMatch_handles:
  "entryHandles (entryAt (addMatch U u configs m) p) \<subseteq> insert u (entryHandles (entryAt configs p))"
proof (cases "p = Client m")
  case False
  then show ?thesis by (auto simp: entryAt_def addMatch_other)
next
  case True
  have e: "entryAt (addMatch U u configs m) (Client m) =
      (if QuestionDomain m = [] then (entryAt configs (Client m))\<lparr>Upstreams := Upstreams (entryAt configs (Client m)) @ [u]\<rparr>
       else (entryAt configs (Client m))\<lparr>DomainReservedUpstreams := Some (appendAt (orEmptyMap (DomainReservedUpstreams (entryAt configs (Client m)))) (normalize U (QuestionDomain m)) u),
                    SpecifiedDomainUpstreams := Some (appendAt (orEmptyMap (SpecifiedDomainUpstreams (entryAt configs (Client m)))) (normalize U (QuestionDomain m)) u)\<rparr>)"
    by (simp add: addMatch_def Let_def entryAt_def)
  show ?thesis unfolding True e
    by (auto simp: entryHandles_def domainUpstreams_appendAt split: if_splits)
qed

lemma addMatch_tableHandles:
  "tableHandles (addMatch U u configs m) \<subseteq> insert u (tableHandles configs)"
  using addMatch_handles [of U u configs m] unfolding tableHandles_def by blast

lemma foldl_addMatch_tableHandles:
  "tableHandles (foldl (addMatch U u) configs ms) \<subseteq> insert u (tableHandles configs)"
proof (induction ms arbitrary: configs)
  case Nil
  show ?case by auto
next
  case (Cons m ms)
  from Cons.IH [of "addMatch U u configs m"] addMatch_tableHandles [of U u configs m]
  show ?case by auto
qed

lemma addGroup_tableHandles:
  "tableHandles (addGroup U g configs u) \<subseteq> insert u (tableHandles configs)"
  by (simp add: addGroup_def foldl_addMatch_tableHandles)

lemma tableHandles_iff: "h \<in> tableHandles t \<longleftrightarrow> (\<exists>p e. t p = Some e \<and> h \<in> entryHandles e)"
proof
  assume "h \<in> tableHandles t"
  then obtain p where p: "h \<in> entryHandles (entryAt t p)" by (auto simp: tableHandles_def)
  then show "\<exists>p e. t p = Some e \<and> h \<in> entryHandles e"
    by (cases "t p") (auto simp: entryAt_def entryHandles_empty)
next
  assume "\<exists>p e. t p = Some e \<and> h \<in> entryHandles e"
  then obtain p e where "t p = Some e" "h \<in> entryHandles e" by blast
  then have "h \<in> entryHandles (entryAt t p)" by (simp add: entryAt_def)
  then show "h \<in> tableHandles t" by (auto simp: tableHandles_def)
qed

lemma tableHandles_upd:
  "entryHandles e \<subseteq> H \<Longrightarrow> tableHandles t \<subseteq> H \<Longrightarrow> tableHandles (t(p \<mapsto> e)) \<subseteq> H"
proof
  fix h assume a: "entryHandles e \<subseteq> H" "tableHandles t \<subseteq> H" "h \<in> tableHandles (t(p \<mapsto> e))"
  then obtain q e' where q: "(t(p \<mapsto> e)) q = Some e'" "h \<in> entryHandles e'"
    by (auto simp: tableHandles_iff)
  show "h \<in> H"
  proof (cases "q = p")
    case True
    with q a show ?thesis by auto
  next
    case False
    with q have "h \<in> tableHandles t" by (auto simp: tableHandles_iff)
    with a show ?thesis by blast
  qed
qed

lemma tableHandles_entry: "t p = Some e \<Longrightarrow> entryHandles e \<subseteq> tableHandles t"
  using tableHandles_iff by blast

lemma entryHandles_Upstreams_append:
  "entryHandles (e\<lparr>Upstreams := Upstreams e @ [u]\<rparr>) = insert u (entryHandles e)"
  by (auto simp: entryHandles_def)

lemma routeGroup_handles:
  "tableHandles (ups (routeGroup U g u b)) \<union> privateHandles (privateConf (routeGroup U g u b))
     \<subseteq> insert u (tableHandles (ups b) \<union> privateHandles (privateConf b))"
proof -
  consider (d) "Name g = UpstreamGroupNameDefault"
    | (p) "Name g \<noteq> UpstreamGroupNameDefault" "Name g = UpstreamGroupNamePrivate"
    | (o) "Name g \<noteq> UpstreamGroupNameDefault" "Name g \<noteq> UpstreamGroupNamePrivate" by blast
  then show ?thesis
  proof cases
    case d
    show ?thesis
    proof (cases "ups b zeroPrefix")
      case None
      with d show ?thesis by (auto simp: routeGroup_def)
    next
      case (Some e)
      have "tableHandles ((ups b)(zeroPrefix \<mapsto> e\<lparr>Upstreams := Upstreams e @ [u]\<rparr>))
          \<subseteq> insert u (tableHandles (ups b))"
        using tableHandles_entry [of "ups b" zeroPrefix e, OF Some]
        by (intro tableHandles_upd) (auto simp: entryHandles_Upstreams_append)
      with d Some show ?thesis by (auto simp: routeGroup_def)
    qed
  next
    case p
    then show ?thesis
      by (auto simp: routeGroup_def Let_def privateHandles_def entryHandles_Upstreams_append
            entryHandles_empty split: option.splits)
  next
    case o
    with addGroup_tableHandles [of U g "ups b" u] show ?thesis
      by (auto simp: routeGroup_def)
  qed
qed


lemma running_step: "running b \<Longrightarrow> running (groupStep a2u U t l boot b g)"
  using groupStep_dom [of b a2u U t l boot g] unfolding running_def by blast

lemma running_loop: "running b \<Longrightarrow> running (buildLoop a2u U t l boot b gs)"
  using buildLoop_dom [of b a2u U t l boot gs] unfolding running_def by blast

lemma running_init: "running (initBuild w)"
  by (simp add: running_def initBuild_def)

lemma buildLoop_Nil: "buildLoop a2u U t l boot b [] = b"
  by (simp add: buildLoop_def)

lemma buildLoop_Cons:
  "buildLoop a2u U t l boot b (g # gs) = buildLoop a2u U t l boot (groupStep a2u U t l boot b g) gs"
  by (simp add: buildLoop_def)

lemma groupStep_eq:
  "\<not> panicked b \<Longrightarrow>
   groupStep a2u U t l boot b g =
     (case upstreams b (Address g) of
        Some u \<Rightarrow> routeGroup U g u b
      | None \<Rightarrow>
          (case a2u (Address g) (groupOptions t l boot g) of
             None \<Rightarrow>
               routeGroup U g (length (heap (wld b)))
                 (b\<lparr>upstreams := (upstreams b)(Address g \<mapsto> length (heap (wld b))),
                    wld := (wld b)\<lparr>calls := calls (wld b) @ [(Address g, groupOptions t l boot g)],
                                   heap := heap (wld b) @ [(Address g, groupOptions t l boot g)]\<rparr>\<rparr>)
           | Some e \<Rightarrow>
               b\<lparr>wld := (wld b)\<lparr>calls := calls (wld b) @ [(Address g, groupOptions t l boot g)]\<rparr>,
                 errs := errs b @ [GroupError (Name g) e]\<rparr>))"
  by (simp add: groupStep_hit groupStep_new groupStep_fail split: option.splits)

lemma errs_step:
  assumes "running b"
  shows "errs (groupStep a2u U t l boot b g)
           = errs b @ failures a2u t l boot (dom (upstreams b)) [g]"
    and "dom (upstreams (groupStep a2u U t l boot b g))
           = (if a2u (Address g) (groupOptions t l boot g) = None
              then insert (Address g) (dom (upstreams b)) else dom (upstreams b))"
  using assms by (auto simp: running_def groupStep_eq routeGroup_keeps split: option.splits)

lemma pool_step_mono:
  "upstreams b a = Some h \<Longrightarrow> upstreams (groupStep a2u U t l boot b g) a = Some h"
  by (cases "panicked b") (auto simp: groupStep_panicked groupStep_eq routeGroup_keeps split: option.splits)

lemma heap_step_mono:
  "h < length (heap (wld b)) \<Longrightarrow>
   h < length (heap (wld (groupStep a2u U t l boot b g)))
   \<and> heap (wld (groupStep a2u U t l boot b g)) ! h = heap (wld b) ! h"
  by (cases "panicked b")
     (auto simp: groupStep_panicked groupStep_eq routeGroup_keeps nth_append split: option.splits)

lemma pool_loop_mono:
  "upstreams b a = Some h \<Longrightarrow> upstreams (buildLoop a2u U t l boot b gs) a = Some h"
  by (induction gs arbitrary: b) (simp_all add: buildLoop_Nil buildLoop_Cons pool_step_mono)

lemma heap_loop_mono:
  "h < length (heap (wld b)) \<Longrightarrow>
   h < length (heap (wld (buildLoop a2u U t l boot b gs)))
   \<and> heap (wld (buildLoop a2u U t l boot b gs)) ! h = heap (wld b) ! h"
proof (induction gs arbitrary: b)
  case Nil
  then show ?case by (simp add: buildLoop_Nil)
next
  case (Cons g gs)
  from heap_step_mono [OF Cons.prems, of a2u U t l boot g]
  have 1: "h < length (heap (wld (groupStep a2u U t l boot b g)))"
    and 2: "heap (wld (groupStep a2u U t l boot b g)) ! h = heap (wld b) ! h" by simp_all
  from Cons.IH [OF 1] 2 show ?case by (simp add: buildLoop_Cons)
qed


lemma pool_dom_loop:
  "running b \<Longrightarrow>
   dom (upstreams (buildLoop a2u U t l boot b gs))
     = dom (upstreams b) \<union> {Address g | g. g \<in> set gs \<and> a2u (Address g) (groupOptions t l boot g) = None}"
proof (induction gs arbitrary: b)
  case Nil
  show ?case by (simp add: buildLoop_Nil)
next
  case (Cons g gs)
  let ?b = "groupStep a2u U t l boot b g"
  have r: "running ?b" using Cons.prems by (rule running_step)
  have d: "dom (upstreams ?b) = (if a2u (Address g) (groupOptions t l boot g) = None
              then insert (Address g) (dom (upstreams b)) else dom (upstreams b))"
    using Cons.prems by (rule errs_step)
  show ?case unfolding buildLoop_Cons Cons.IH [OF r] d by auto
qed


lemma poolInv_route:
  assumes "poolInv n b" "u \<in> ran (upstreams b)"
  shows "poolInv n (routeGroup U g u b)"
proof -
  from routeGroup_handles [of U g u b] assms
  have "tableHandles (ups (routeGroup U g u b)) \<union> privateHandles (privateConf (routeGroup U g u b))
      \<subseteq> ran (upstreams b)"
    unfolding poolInv_def by blast
  with assms(1) show ?thesis by (simp add: poolInv_def routeGroup_keeps)
qed

lemma poolInv_new:
  assumes inv: "poolInv n b" and none: "upstreams b a = None" and n: "n \<le> length (heap (wld b))"
  shows "poolInv n (b\<lparr>upstreams := (upstreams b)(a \<mapsto> length (heap (wld b))),
                      wld := (wld b)\<lparr>calls := c, heap := heap (wld b) @ [(a, opts)]\<rparr>\<rparr>)
         \<and> length (heap (wld b)) \<in> ran ((upstreams b)(a \<mapsto> length (heap (wld b))))"
proof -
  let ?h = "length (heap (wld b))"
  let ?P = "(upstreams b)(a \<mapsto> ?h)"
  let ?H = "heap (wld b) @ [(a, opts)]"
  have 1: "\<forall>a' h. ?P a' = Some h \<longrightarrow> n \<le> h \<and> h < length ?H \<and> fst (?H ! h) = a'"
  proof (intro allI impI)
    fix a' h assume p: "?P a' = Some h"
    show "n \<le> h \<and> h < length ?H \<and> fst (?H ! h) = a'"
    proof (cases "a' = a")
      case True
      with p have "h = ?h" by simp
      with True n show ?thesis by (simp add: nth_append)
    next
      case False
      with p have "upstreams b a' = Some h" by simp
      with inv have "n \<le> h \<and> h < ?h \<and> fst (heap (wld b) ! h) = a'" unfolding poolInv_def by blast
      then show ?thesis by (simp add: nth_append)
    qed
  qed
  have 2: "\<forall>h. n \<le> h \<and> h < length ?H \<longrightarrow> ?P (fst (?H ! h)) = Some h"
  proof (intro allI impI)
    fix h assume h: "n \<le> h \<and> h < length ?H"
    show "?P (fst (?H ! h)) = Some h"
    proof (cases "h = ?h")
      case True
      then show ?thesis by simp
    next
      case False
      with h have lt: "h < ?h" by simp
      with h inv have u: "upstreams b (fst (heap (wld b) ! h)) = Some h" unfolding poolInv_def by blast
      with none have "fst (heap (wld b) ! h) \<noteq> a" by auto
      with u lt show ?thesis by (simp add: nth_append)
    qed
  qed
  have "ran (upstreams b) \<subseteq> ran ?P"
  proof
    fix x assume "x \<in> ran (upstreams b)"
    then obtain a' where a': "upstreams b a' = Some x" by (auto simp: ran_def)
    with none have "a' \<noteq> a" by auto
    with a' have "?P a' = Some x" by simp
    then show "x \<in> ran ?P" by (rule ranI)
  qed
  with inv have 3: "tableHandles (ups b) \<union> privateHandles (privateConf b) \<subseteq> ran ?P"
    unfolding poolInv_def by blast
  have 4: "?h \<in> ran ?P" by (auto simp: ran_def)
  from 1 2 3 4 show ?thesis by (simp add: poolInv_def)
qed

lemma poolInv_step:
  assumes inv: "poolInv n b" and n: "n \<le> length (heap (wld b))"
  shows "poolInv n (groupStep a2u U t l boot b g)"
proof (cases "panicked b")
  case True
  with inv show ?thesis by (simp add: groupStep_panicked)
next
  case np: False
  show ?thesis
  proof (cases "upstreams b (Address g)")
    case (Some u)
    then have "u \<in> ran (upstreams b)" by (auto simp: ran_def)
    with inv Some np show ?thesis by (simp add: groupStep_eq poolInv_route)
  next
    case None
    show ?thesis
    proof (cases "a2u (Address g) (groupOptions t l boot g)")
      case nn: None
      from poolInv_new [OF inv None n] None nn np show ?thesis
        by (simp add: groupStep_eq poolInv_route)
    next
      case (Some e)
      with None np inv show ?thesis by (simp add: groupStep_eq poolInv_def)
    qed
  qed
qed

lemma heap_length_step: "length (heap (wld b)) \<le> length (heap (wld (groupStep a2u U t l boot b g)))"
  by (cases "panicked b") (auto simp: groupStep_panicked groupStep_eq routeGroup_keeps split: option.splits)

lemma poolInv_loop:
  "poolInv n b \<Longrightarrow> n \<le> length (heap (wld b)) \<Longrightarrow> poolInv n (buildLoop a2u U t l boot b gs)"
proof (induction gs arbitrary: b)
  case Nil
  then show ?case by (simp add: buildLoop_Nil)
next
  case (Cons g gs)
  have "n \<le> length (heap (wld (groupStep a2u U t l boot b g)))"
    using Cons.prems(2) heap_length_step [of b a2u U t l boot g] by simp
  with Cons.IH [OF poolInv_step [OF Cons.prems]] show ?case by (simp add: buildLoop_Cons)
qed

lemma tableHandles_init: "tableHandles [zeroPrefix \<mapsto> emptyConfig] = {}"
  by (auto simp: tableHandles_iff entryHandles_empty split: if_splits)

lemma poolInv_init: "poolInv (length (heap w)) (initBuild w)"
  by (simp add: poolInv_def initBuild_def tableHandles_init privateHandles_def)


lemma poolInv_pooled:
  "poolInv n b \<Longrightarrow> upstreams b a = Some h \<Longrightarrow>
   n \<le> h \<and> h < length (heap (wld b)) \<and> fst (heap (wld b) ! h) = a"
  by (simp add: poolInv_def)

lemma poolInv_object:
  "poolInv n b \<Longrightarrow> n \<le> h \<Longrightarrow> h < length (heap (wld b)) \<Longrightarrow>
   upstreams b (fst (heap (wld b) ! h)) = Some h"
  by (simp add: poolInv_def)

lemma poolInv_handle:
  assumes "poolInv n b" "h \<in> tableHandles (ups b) \<union> privateHandles (privateConf b)"
  shows "\<exists>a. upstreams b a = Some h"
proof -
  from assms have "h \<in> ran (upstreams b)" by (auto simp: poolInv_def)
  then show ?thesis by (simp add: ran_def)
qed

lemma drop_nth_fst:
  "i < length (drop n H) \<Longrightarrow> map fst (drop n H) ! i = fst (H ! (n + i)) \<and> n + i < length H"
proof -
  assume a: "i < length (drop n H)"
  then have l: "n + i < length H" by simp
  then have "n \<le> length H" by simp
  then have "drop n H ! i = H ! (n + i)" by (rule nth_drop)
  with a l show ?thesis by (simp add: nth_map)
qed

lemma poolInv_distinct:
  assumes "poolInv n b"
  shows "distinct (map fst (drop n (heap (wld b))))"
proof -
  let ?H = "heap (wld b)"
  let ?xs = "map fst (drop n ?H)"
  have "?xs ! i \<noteq> ?xs ! j" if i: "i < length ?xs" and j: "j < length ?xs" and ne: "i \<noteq> j" for i j
  proof
    assume eq: "?xs ! i = ?xs ! j"
    from i have il: "i < length (drop n ?H)" by (simp only: length_map)
    from j have jl: "j < length (drop n ?H)" by (simp only: length_map)
    from drop_nth_fst [OF il] have i1: "?xs ! i = fst (?H ! (n + i))" and i2: "n + i < length ?H"
      by blast+
    from drop_nth_fst [OF jl] have j1: "?xs ! j = fst (?H ! (n + j))" and j2: "n + j < length ?H"
      by blast+
    have pi: "upstreams b (fst (?H ! (n + i))) = Some (n + i)"
      by (rule poolInv_object [OF assms le_add1 i2])
    have pj: "upstreams b (fst (?H ! (n + j))) = Some (n + j)"
      by (rule poolInv_object [OF assms le_add1 j2])
    from eq i1 j1 have "fst (?H ! (n + i)) = fst (?H ! (n + j))" by (simp only:)
    with pi pj have "Some (n + i) = Some (n + j)" by (simp only:)
    then have "i = j" by simp
    with ne show False by blast
  qed
  then show ?thesis unfolding distinct_conv_nth by blast
qed

lemma poolInv_built_dom:
  assumes "poolInv n b"
  shows "set (map fst (drop n (heap (wld b)))) = dom (upstreams b)"
proof
  let ?H = "heap (wld b)"
  show "set (map fst (drop n ?H)) \<subseteq> dom (upstreams b)"
  proof
    fix a assume "a \<in> set (map fst (drop n ?H))"
    then obtain i where i: "i < length (map fst (drop n ?H))" "map fst (drop n ?H) ! i = a"
      unfolding in_set_conv_nth by blast
    from i(1) have i': "map fst (drop n ?H) ! i = fst (?H ! (n + i)) \<and> n + i < length ?H"
      by (intro drop_nth_fst) simp
    have "upstreams b (fst (?H ! (n + i))) = Some (n + i)"
      using i' by (intro poolInv_object [OF assms]) simp_all
    with i i' show "a \<in> dom (upstreams b)" by (simp add: domIff)
  qed
  show "dom (upstreams b) \<subseteq> set (map fst (drop n ?H))"
  proof
    fix a assume "a \<in> dom (upstreams b)"
    then obtain h where h: "upstreams b a = Some h" by blast
    from poolInv_pooled [OF assms h]
    have p: "n \<le> h" "h < length ?H" "fst (?H ! h) = a" by simp_all
    then have l: "h - n < length (drop n ?H)" by simp
    from drop_nth_fst [OF l] p have "map fst (drop n ?H) ! (h - n) = a" by simp
    moreover from l have "h - n < length (map fst (drop n ?H))" by simp
    ultimately show "a \<in> set (map fst (drop n ?H))" unfolding in_set_conv_nth by blast
  qed
qed

lemma count_distinct:
  "distinct (map f xs) \<Longrightarrow> length (filter (\<lambda>x. f x = a) xs) = (if a \<in> set (map f xs) then 1 else 0)"
proof (induction xs)
  case Nil
  show ?case by simp
next
  case (Cons x xs)
  then have d: "distinct (map f xs)" and nx: "f x \<notin> set (map f xs)" by simp_all
  show ?case
  proof (cases "f x = a")
    case True
    with nx Cons.IH [OF d] show ?thesis by simp
  next
    case False
    with Cons.IH [OF d] show ?thesis by auto
  qed
qed

lemma poolInv_builtFor:
  assumes "poolInv (length (heap w)) b"
  shows "builtFor a w (wld b) = (if a \<in> dom (upstreams b) then 1 else 0)"
  unfolding builtFor_def built_def
  using count_distinct [OF poolInv_distinct [OF assms], of a] poolInv_built_dom [OF assms]
  by simp

lemma poolInv_same_handle:
  assumes "poolInv n b"
    and "h \<in> tableHandles (ups b) \<union> privateHandles (privateConf b)"
    and "h' \<in> tableHandles (ups b) \<union> privateHandles (privateConf b)"
    and "fst (heap (wld b) ! h) = fst (heap (wld b) ! h')"
  shows "h = h'"
proof -
  from poolInv_handle [OF assms(1,2)] obtain a where a: "upstreams b a = Some h" by blast
  from poolInv_handle [OF assms(1,3)] obtain a' where a': "upstreams b a' = Some h'" by blast
  from poolInv_pooled [OF assms(1) a] have "fst (heap (wld b) ! h) = a" by simp
  moreover from poolInv_pooled [OF assms(1) a'] have "fst (heap (wld b) ! h') = a'" by simp
  ultimately have "a = a'" using assms(4) by simp
  with a a' show ?thesis by simp
qed

lemma poolInv_handle_range:
  assumes "poolInv n b" and "h \<in> tableHandles (ups b) \<union> privateHandles (privateConf b)"
  shows "n \<le> h \<and> h < length (heap (wld b))"
proof -
  from poolInv_handle [OF assms] obtain a where a: "upstreams b a = Some h" by blast
  from poolInv_pooled [OF assms(1) a] show ?thesis by simp
qed

lemma tableEq_refl: "tableEq b b"
  by (simp add: tableEq_def)

lemma tableEq_trans: "tableEq a b \<Longrightarrow> tableEq b c \<Longrightarrow> tableEq a c"
  by (simp add: tableEq_def)

lemma tableEq_route: "tableEq b b' \<Longrightarrow> tableEq (routeGroup U g u b) (routeGroup U g u b')"
  by (auto simp: tableEq_def routeGroup_def Let_def split: option.splits)

lemma tableEq_routeAll: "tableEq b b' \<Longrightarrow> tableEq (routeAll U P b gs) (routeAll U P b' gs)"
  unfolding routeAll_def
proof (induction gs arbitrary: b b')
  case Nil
  then show ?case by simp
next
  case (Cons g gs)
  have "tableEq (case P (Address g) of None \<Rightarrow> b | Some u \<Rightarrow> routeGroup U g u b)
                (case P (Address g) of None \<Rightarrow> b' | Some u \<Rightarrow> routeGroup U g u b')"
    using Cons.prems by (auto split: option.splits intro: tableEq_route)
  from Cons.IH [OF this] show ?case by simp
qed

lemma routeAll_Cons:
  "routeAll U P b (g # gs) = routeAll U P (case P (Address g) of None \<Rightarrow> b | Some u \<Rightarrow> routeGroup U g u b) gs"
  by (simp add: routeAll_def)




lemma build_is_routeAll:
  "running b \<Longrightarrow>
   tableEq (buildLoop a2u U t l boot b gs)
     (routeAll U (upstreams (buildLoop a2u U t l boot b gs)) b
        (survivors a2u t l boot (dom (upstreams b)) gs))"
proof (induction gs arbitrary: b)
  case Nil
  show ?case by (simp add: buildLoop_Nil routeAll_def tableEq_refl)
next
  case (Cons g gs)
  let ?b1 = "groupStep a2u U t l boot b g"
  let ?P = "upstreams (buildLoop a2u U t l boot ?b1 gs)"
  from Cons.prems have np: "\<not> panicked b" by (simp add: running_def)
  have r1: "running ?b1" using Cons.prems by (rule running_step)
  note IH = Cons.IH [OF r1]
  show ?case
  proof (cases "upstreams b (Address g)")
    case (Some u)
    have s: "?b1 = routeGroup U g u b" using np Some by (simp add: groupStep_eq)
    have d: "dom (upstreams ?b1) = dom (upstreams b)" by (simp add: s routeGroup_keeps)
    have "?P (Address g) = Some u"
      using pool_loop_mono [of ?b1 "Address g" u] Some by (simp add: s routeGroup_keeps)
    with Some IH show ?thesis
      by (simp add: buildLoop_Cons routeAll_Cons d domI) (simp add: s)
  next
    case None
    show ?thesis
    proof (cases "a2u (Address g) (groupOptions t l boot g)")
      case nn: None
      let ?h = "length (heap (wld b))"
      let ?b' = "b\<lparr>upstreams := (upstreams b)(Address g \<mapsto> ?h),
              wld := (wld b)\<lparr>calls := calls (wld b) @ [(Address g, groupOptions t l boot g)],
                             heap := heap (wld b) @ [(Address g, groupOptions t l boot g)]\<rparr>\<rparr>"
      have s: "?b1 = routeGroup U g ?h ?b'" using np None nn by (simp add: groupStep_eq)
      have d: "dom (upstreams ?b1) = insert (Address g) (dom (upstreams b))"
        by (simp add: s routeGroup_keeps)
      have P: "?P (Address g) = Some ?h"
        using pool_loop_mono [of ?b1 "Address g" ?h] by (simp add: s routeGroup_keeps)
      have "tableEq ?b' b" by (simp add: tableEq_def)
      then have "tableEq ?b1 (routeGroup U g ?h b)" unfolding s by (rule tableEq_route)
      then have "tableEq (routeAll U ?P ?b1 (survivors a2u t l boot (dom (upstreams ?b1)) gs))
                         (routeAll U ?P (routeGroup U g ?h b) (survivors a2u t l boot (dom (upstreams ?b1)) gs))"
        by (rule tableEq_routeAll)
      with IH have "tableEq (buildLoop a2u U t l boot ?b1 gs)
           (routeAll U ?P (routeGroup U g ?h b) (survivors a2u t l boot (dom (upstreams ?b1)) gs))"
        by (rule tableEq_trans)
      with None nn P show ?thesis
        by (simp add: buildLoop_Cons routeAll_Cons d domIff)
    next
      case (Some e)
      have s: "?b1 = b\<lparr>wld := (wld b)\<lparr>calls := calls (wld b) @ [(Address g, groupOptions t l boot g)]\<rparr>,
           errs := errs b @ [GroupError (Name g) e]\<rparr>" using np None Some by (simp add: groupStep_eq)
      have d: "dom (upstreams ?b1) = dom (upstreams b)" by (simp add: s)
      have "tableEq ?b1 b" by (simp add: s tableEq_def)
      then have "tableEq (routeAll U ?P ?b1 (survivors a2u t l boot (dom (upstreams ?b1)) gs))
                         (routeAll U ?P b (survivors a2u t l boot (dom (upstreams ?b1)) gs))"
        by (rule tableEq_routeAll)
      with IH have "tableEq (buildLoop a2u U t l boot ?b1 gs)
           (routeAll U ?P b (survivors a2u t l boot (dom (upstreams ?b1)) gs))"
        by (rule tableEq_trans)
      with None Some show ?thesis
        by (simp add: buildLoop_Cons d domIff)
    qed
  qed
qed






lemma routingEq_running: "routingEq b b' \<Longrightarrow> running b \<Longrightarrow> running b'"
  by (simp add: routingEq_def running_def)




lemma pool_step_other:
  "Address g \<noteq> a \<or> a2u (Address g) (groupOptions t l boot g) \<noteq> None \<Longrightarrow> upstreams b a = None \<Longrightarrow>
   upstreams (groupStep a2u U t l boot b g) a = None"
  by (cases "panicked b") (auto simp: groupStep_panicked groupStep_eq routeGroup_keeps split: option.splits)

lemma first_accepted_loop:
  "running b \<Longrightarrow> upstreams b a = None \<Longrightarrow> upstreams (buildLoop a2u U t l boot b gs) a = Some h \<Longrightarrow>
   \<exists>g. firstAccepted a2u t l boot a gs = Some g
       \<and> heap (wld (buildLoop a2u U t l boot b gs)) ! h = (a, groupOptions t l boot g)"
proof (induction gs arbitrary: b)
  case Nil
  then show ?case by (simp add: buildLoop_Nil)
next
  case (Cons g gs)
  let ?b1 = "groupStep a2u U t l boot b g"
  from Cons.prems have np: "\<not> panicked b" by (simp add: running_def)
  have r1: "running ?b1" using Cons.prems(1) by (rule running_step)
  show ?case
  proof (cases "Address g = a \<and> a2u (Address g) (groupOptions t l boot g) = None")
    case True
    let ?h = "length (heap (wld b))"
    from True have ag: "a = Address g" by blast
    from Cons.prems(2) have n: "upstreams b (Address g) = None" by (simp add: ag)
    from True have acc: "a2u (Address g) (groupOptions t l boot g) = None" by blast
    have "upstreams ?b1 (Address g) = Some ?h" and h1: "?h < length (heap (wld ?b1))"
      and "heap (wld ?b1) ! ?h = (Address g, groupOptions t l boot g)"
      using np n acc by (simp_all add: groupStep_new routeGroup_keeps)
    then have p1: "upstreams ?b1 a = Some ?h"
      and o1: "heap (wld ?b1) ! ?h = (a, groupOptions t l boot g)" by (simp_all add: ag)
    from pool_loop_mono [OF p1] Cons.prems(3) have hh: "h = ?h" by (simp add: buildLoop_Cons)
    from heap_loop_mono [OF h1] o1
    have "heap (wld (buildLoop a2u U t l boot ?b1 gs)) ! ?h = (a, groupOptions t l boot g)" by simp
    with hh True show ?thesis by (auto simp: buildLoop_Cons firstAccepted_def)
  next
    case False
    then have "Address g \<noteq> a \<or> a2u (Address g) (groupOptions t l boot g) \<noteq> None" by blast
    with Cons.prems(2) have n1: "upstreams ?b1 a = None" by (simp add: pool_step_other)
    from Cons.prems(3) have "upstreams (buildLoop a2u U t l boot ?b1 gs) a = Some h"
      by (simp add: buildLoop_Cons)
    from Cons.IH [OF r1 n1 this] False show ?thesis
      by (auto simp: buildLoop_Cons firstAccepted_def)
  qed
qed


section \<open>Failed groups\<close>




lemma init_pool: "dom (upstreams (initBuild w)) = {}"
  by (simp add: initBuild_def)







section \<open>One object per address\<close>

lemma poolInv_build:
  "poolInv (length (heap w)) (buildLoop a2u U t l boot (initBuild w) gs)"
  using poolInv_loop [OF poolInv_init, of w a2u U t l boot gs] by (simp add: initBuild_def)

lemma pool_dom_build:
  "a \<in> dom (upstreams (buildLoop a2u U t l boot (initBuild w) gs))
     \<longleftrightarrow> (\<exists>g \<in> set gs. Address g = a \<and> a2u a (groupOptions t l boot g) = None)"
  using pool_dom_loop [OF running_init, of a2u U t l boot w gs] by (auto simp: init_pool)

lemma wld_init: "wld (initBuild w) = w"
  by (simp add: initBuild_def)

text \<open>
  Claim C1, as amended.  \<^verbatim>\<open>newUpstreams\<close> returns, and for every address \<open>a\<close> the number of
  upstream objects it constructs from \<open>a\<close> is one when the library accepts \<open>a\<close> for at least
  one group that references it, and zero otherwise: never more than one, however many groups
  share the address.  The table and the private configuration are what routing each surviving
  group with the handle pooled under its address gives, so all entries made for groups of one
  address hold one handle.  Every pooled handle is an object built by this call from the address
  it is pooled under, and two handles anywhere in the table or the private configuration whose
  objects have the same address are the same handle.
\<close>

theorem one_handle_per_address:
  "(let t = UpstreamTimeout conf;
        b = buildLoop a2u U t l boot (initBuild w) (Groups conf)
    in newUpstreams a2u U conf l boot w
         = Some ((ups b, privateConf b, Annotate (Join (errs b)) ''creating upstreams''), wld b)
       \<and> builtFor a w (wld b)
           = (if \<exists>g \<in> set (Groups conf). Address g = a \<and> a2u a (groupOptions t l boot g) = None
              then 1 else 0)
       \<and> ups b = ups (routeAll U (upstreams b) (initBuild w) (survivors a2u t l boot {} (Groups conf)))
       \<and> privateConf b
           = privateConf (routeAll U (upstreams b) (initBuild w) (survivors a2u t l boot {} (Groups conf)))
       \<and> (\<forall>a' h. upstreams b a' = Some h \<longrightarrow>
             length (heap w) \<le> h \<and> h < length (heap (wld b)) \<and> fst (heap (wld b) ! h) = a')
       \<and> (\<forall>h \<in> tableHandles (ups b) \<union> privateHandles (privateConf b).
           \<forall>h' \<in> tableHandles (ups b) \<union> privateHandles (privateConf b).
             fst (heap (wld b) ! h) = fst (heap (wld b) ! h') \<longrightarrow> h = h'))"
proof -
  define t where "t = UpstreamTimeout conf"
  define b where "b = buildLoop a2u U t l boot (initBuild w) (Groups conf)"
  have inv: "poolInv (length (heap w)) b" unfolding b_def by (rule poolInv_build)
  have 1: "newUpstreams a2u U conf l boot w
         = Some ((ups b, privateConf b, Annotate (Join (errs b)) ''creating upstreams''), wld b)"
    by (simp add: newUpstreams_returns Let_def b_def t_def)
  have 2: "builtFor a w (wld b)
           = (if \<exists>g \<in> set (Groups conf). Address g = a \<and> a2u a (groupOptions t l boot g) = None
              then 1 else 0)"
    using poolInv_builtFor [OF inv, of a] pool_dom_build [of a a2u U t l boot w "Groups conf"]
    by (simp add: b_def)
  have "tableEq b (routeAll U (upstreams b) (initBuild w) (survivors a2u t l boot {} (Groups conf)))"
    using build_is_routeAll [OF running_init, of a2u U t l boot w "Groups conf"]
    by (simp add: b_def init_pool)
  then have 3: "ups b = ups (routeAll U (upstreams b) (initBuild w) (survivors a2u t l boot {} (Groups conf)))"
    and 4: "privateConf b
           = privateConf (routeAll U (upstreams b) (initBuild w) (survivors a2u t l boot {} (Groups conf)))"
    by (simp_all add: tableEq_def)
  have 5: "\<forall>a' h. upstreams b a' = Some h \<longrightarrow>
             length (heap w) \<le> h \<and> h < length (heap (wld b)) \<and> fst (heap (wld b) ! h) = a'"
    using poolInv_pooled [OF inv] by blast
  have 6: "\<forall>h \<in> tableHandles (ups b) \<union> privateHandles (privateConf b).
           \<forall>h' \<in> tableHandles (ups b) \<union> privateHandles (privateConf b).
             fst (heap (wld b) ! h) = fst (heap (wld b) ! h') \<longrightarrow> h = h'"
    using poolInv_same_handle [OF inv] by blast
  from 1 2 3 4 5 6 show ?thesis
    unfolding Let_def t_def [symmetric] b_def [symmetric] by blast
qed

lemma firstAccepted_first:
  "find (\<lambda>g. Address g = a) gs = Some g0 \<Longrightarrow> a2u a (groupOptions t l boot g0) = None \<Longrightarrow>
   firstAccepted a2u t l boot a gs = Some g0"
  unfolding firstAccepted_def
  by (induction gs) (auto split: if_splits)

lemma firstAccepted_sound:
  "firstAccepted a2u t l boot a gs = Some g \<Longrightarrow>
   g \<in> set gs \<and> Address g = a \<and> a2u a (groupOptions t l boot g) = None"
  unfolding firstAccepted_def
  by (induction gs) (auto split: if_splits)

text \<open>The example build, evaluated.\<close>

lemma ex_pool: "upstreams exBuild ''192.168.12.34'' = Some 1"
  by code_simp

lemma ex_routes:
  "map_option Upstreams (privateConf exBuild) = Some [1]
   \<and> domainUpstreams (DomainReservedUpstreams (entryAt (ups exBuild) zeroPrefix)) ''mycompany.local.'' = [1]
   \<and> Upstreams (entryAt (ups exBuild) zeroPrefix) = [0]
   \<and> Upstreams (entryAt (ups exBuild) exLan) = [0]"
  by code_simp

lemma ex_first: "firstAccepted exA2U (UpstreamTimeout exConf) [] None ''192.168.12.34'' (Groups exConf) = Some exPrivate"
  by code_simp

text \<open>
  In the example configuration the groups \<open>private\<close> and \<open>office\<close> share an address: one
  object is built for it, and the private list and the domain map of the default entry hold the
  same handle; nothing is built for the rejected address.
\<close>

theorem one_handle_per_address_witness:
  "builtFor ''192.168.12.34'' exWorld (wld exBuild) = 1
   \<and> builtFor ''bad://'' exWorld (wld exBuild) = 0
   \<and> 1 < length (heap (wld exBuild)) \<and> fst (heap (wld exBuild) ! 1) = ''192.168.12.34''
   \<and> map_option Upstreams (privateConf exBuild) = Some [1]
   \<and> domainUpstreams (DomainReservedUpstreams (entryAt (ups exBuild) zeroPrefix)) ''mycompany.local.'' = [1]"
proof -
  have g1: "\<exists>g \<in> set (Groups exConf). Address g = ''192.168.12.34''
        \<and> exA2U ''192.168.12.34'' (groupOptions (UpstreamTimeout exConf) [] None g) = None"
    by (simp add: exConf_def exPrivate_def exA2U_def)
  have g2: "\<not> (\<exists>g \<in> set (Groups exConf). Address g = ''bad://''
        \<and> exA2U ''bad://'' (groupOptions (UpstreamTimeout exConf) [] None g) = None)"
    by (simp add: exA2U_def)
  have a: "builtFor ''192.168.12.34'' exWorld (wld exBuild) = 1"
    using one_handle_per_address [where a2u = exA2U and U = exUnicode and conf = exConf and l = "[]"
        and boot = None and w = exWorld and a = "''192.168.12.34''"] g1
    unfolding Let_def exBuild_def by simp
  have b: "builtFor ''bad://'' exWorld (wld exBuild) = 0"
    using one_handle_per_address [where a2u = exA2U and U = exUnicode and conf = exConf and l = "[]"
        and boot = None and w = exWorld and a = "''bad://''"] g2
    unfolding Let_def exBuild_def by simp
  have c: "1 < length (heap (wld exBuild)) \<and> fst (heap (wld exBuild) ! 1) = ''192.168.12.34''"
    using one_handle_per_address [where a2u = exA2U and U = exUnicode and conf = exConf and l = "[]"
        and boot = None and w = exWorld] ex_pool
    unfolding Let_def exBuild_def by blast
  from a b c ex_routes show ?thesis by simp
qed

text \<open>
  Claim C1 as stated asks for exactly one object whenever two groups share an address.  Two
  groups that share an address the library rejects give none.
\<close>

theorem one_handle_per_address_counterexample:
  "Groups exBadConf = [exBroken, exBroken2]
   \<and> Address exBroken = ''bad://'' \<and> Address exBroken2 = ''bad://''
   \<and> newUpstreams exA2U exUnicode exBadConf [] None exWorld \<noteq> None
   \<and> builtFor ''bad://'' exWorld (snd (the (newUpstreams exA2U exUnicode exBadConf [] None exWorld))) = 0"
proof -
  have "builtFor ''bad://'' exWorld (snd (the (newUpstreams exA2U exUnicode exBadConf [] None exWorld))) = 0"
    by code_simp
  then show ?thesis
    by (simp add: exBadConf_def exBroken_def exBroken2_def newUpstreams_returns Let_def)
qed

section \<open>Whose options a shared upstream has\<close>

lemma find_address:
  "g \<in> set gs \<Longrightarrow> Address g = a \<Longrightarrow>
   \<exists>g0. find (\<lambda>g. Address g = a) gs = Some g0 \<and> g0 \<in> set gs \<and> Address g0 = a"
  by (induction gs) auto

lemma pooled_first_options:
  assumes p: "upstreams (buildLoop a2u U t l boot (initBuild w) gs) a = Some h"
  shows "\<exists>g. firstAccepted a2u t l boot a gs = Some g
       \<and> heap (wld (buildLoop a2u U t l boot (initBuild w) gs)) ! h = (a, groupOptions t l boot g)"
proof -
  have n: "upstreams (initBuild w) a = None" by (simp add: initBuild_def)
  from first_accepted_loop [OF running_init n p] show ?thesis .
qed

lemma pooled_first_referencing:
  assumes p: "upstreams (buildLoop a2u U t l boot (initBuild w) gs) a = Some h"
    and same: "\<forall>g \<in> set gs. \<forall>g' \<in> set gs. Address g = Address g' \<longrightarrow>
        (a2u (Address g) (groupOptions t l boot g) = None)
          = (a2u (Address g') (groupOptions t l boot g') = None)"
  shows "\<exists>g0. find (\<lambda>g. Address g = a) gs = Some g0
       \<and> heap (wld (buildLoop a2u U t l boot (initBuild w) gs)) ! h = (a, groupOptions t l boot g0)"
proof -
  from pooled_first_options [OF p] obtain g where
    f: "firstAccepted a2u t l boot a gs = Some g"
    and o: "heap (wld (buildLoop a2u U t l boot (initBuild w) gs)) ! h = (a, groupOptions t l boot g)"
    by blast
  from firstAccepted_sound [OF f] have g: "g \<in> set gs" "Address g = a"
    "a2u a (groupOptions t l boot g) = None" by simp_all
  from find_address [OF g(1,2)] obtain g0 where
    g0: "find (\<lambda>g. Address g = a) gs = Some g0" "g0 \<in> set gs" "Address g0 = a" by blast
  have eq: "Address g = Address g0" using g(2) g0(3) by simp
  from same g(1) g0(2) eq
  have "(a2u (Address g) (groupOptions t l boot g) = None)
          = (a2u (Address g0) (groupOptions t l boot g0) = None)" by blast
  moreover have "a2u (Address g) (groupOptions t l boot g) = None" using g(2,3) by simp
  ultimately have "a2u (Address g0) (groupOptions t l boot g0) = None" by blast
  then have acc0: "a2u a (groupOptions t l boot g0) = None" using g0(3) by simp
  have "firstAccepted a2u t l boot a gs = Some g0" using g0(1) acc0 by (rule firstAccepted_first)
  with f have "g0 = g" by simp
  with g0(1) o show ?thesis by simp
qed

text \<open>
  Claim C10.  A lookup of a pooled address returns the pooled handle whatever options it is
  given.  In \<^verbatim>\<open>newUpstreams\<close> every surviving group is routed with the handle pooled under
  its address, and the object behind that handle carries the options (logger with the group
  name, timeout, bootstrap resolver) of the first group with that address that the library
  accepted.  That group is the first group referencing the address whenever the library accepts
  that one, and in particular whenever the library's verdict on an address is the same for all
  groups that reference it.
\<close>

theorem cached_upstream_keeps_first_options:
  "(addrToUps addr = Some u \<longrightarrow>
      newUpstreamOrCached a2u addr addrToUps opts w = (Inr u, addrToUps, w)
      \<and> newUpstreamOrCached a2u addr addrToUps opts' w = newUpstreamOrCached a2u addr addrToUps opts w)
   \<and> (let t = UpstreamTimeout conf;
           b = buildLoop a2u U t l boot (initBuild w) (Groups conf)
       in newUpstreams a2u U conf l boot w
            = Some ((ups b, privateConf b, Annotate (Join (errs b)) ''creating upstreams''), wld b)
          \<and> ups b = ups (routeAll U (upstreams b) (initBuild w) (survivors a2u t l boot {} (Groups conf)))
          \<and> privateConf b
              = privateConf (routeAll U (upstreams b) (initBuild w) (survivors a2u t l boot {} (Groups conf)))
          \<and> (\<forall>a h. upstreams b a = Some h \<longrightarrow>
                (\<exists>g. firstAccepted a2u t l boot a (Groups conf) = Some g
                     \<and> heap (wld b) ! h = (a, groupOptions t l boot g)))
          \<and> (\<forall>a g0. find (\<lambda>g. Address g = a) (Groups conf) = Some g0
                     \<and> a2u a (groupOptions t l boot g0) = None \<longrightarrow>
                firstAccepted a2u t l boot a (Groups conf) = Some g0)
          \<and> ((\<forall>g \<in> set (Groups conf). \<forall>g' \<in> set (Groups conf). Address g = Address g' \<longrightarrow>
                  (a2u (Address g) (groupOptions t l boot g) = None)
                    = (a2u (Address g') (groupOptions t l boot g') = None)) \<longrightarrow>
              (\<forall>a h. upstreams b a = Some h \<longrightarrow>
                (\<exists>g0. find (\<lambda>g. Address g = a) (Groups conf) = Some g0
                      \<and> heap (wld b) ! h = (a, groupOptions t l boot g0)))))"
proof -
  define t where "t = UpstreamTimeout conf"
  define b where "b = buildLoop a2u U t l boot (initBuild w) (Groups conf)"
  have 0: "addrToUps addr = Some u \<longrightarrow>
      newUpstreamOrCached a2u addr addrToUps opts w = (Inr u, addrToUps, w)
      \<and> newUpstreamOrCached a2u addr addrToUps opts' w = newUpstreamOrCached a2u addr addrToUps opts w"
    by (simp add: newUpstreamOrCached_hit)
  have 1: "newUpstreams a2u U conf l boot w
         = Some ((ups b, privateConf b, Annotate (Join (errs b)) ''creating upstreams''), wld b)"
    by (simp add: newUpstreams_returns Let_def b_def t_def)
  have "tableEq b (routeAll U (upstreams b) (initBuild w) (survivors a2u t l boot {} (Groups conf)))"
    using build_is_routeAll [OF running_init, of a2u U t l boot w "Groups conf"]
    by (simp add: b_def init_pool)
  then have 3: "ups b = ups (routeAll U (upstreams b) (initBuild w) (survivors a2u t l boot {} (Groups conf)))"
    and 4: "privateConf b
           = privateConf (routeAll U (upstreams b) (initBuild w) (survivors a2u t l boot {} (Groups conf)))"
    by (simp_all add: tableEq_def)
  have 5: "\<forall>a h. upstreams b a = Some h \<longrightarrow>
                (\<exists>g. firstAccepted a2u t l boot a (Groups conf) = Some g
                     \<and> heap (wld b) ! h = (a, groupOptions t l boot g))"
  proof (intro allI impI)
    fix a h assume "upstreams b a = Some h"
    then have "upstreams (buildLoop a2u U t l boot (initBuild w) (Groups conf)) a = Some h"
      by (simp add: b_def)
    from pooled_first_options [OF this]
    show "\<exists>g. firstAccepted a2u t l boot a (Groups conf) = Some g
                     \<and> heap (wld b) ! h = (a, groupOptions t l boot g)"
      by (simp add: b_def)
  qed
  have 7: "\<forall>a g0. find (\<lambda>g. Address g = a) (Groups conf) = Some g0
                     \<and> a2u a (groupOptions t l boot g0) = None \<longrightarrow>
                firstAccepted a2u t l boot a (Groups conf) = Some g0"
  proof (intro allI impI)
    fix a g0 assume "find (\<lambda>g. Address g = a) (Groups conf) = Some g0
                     \<and> a2u a (groupOptions t l boot g0) = None"
    then show "firstAccepted a2u t l boot a (Groups conf) = Some g0"
      by (simp add: firstAccepted_first)
  qed
  have 8: "(\<forall>g \<in> set (Groups conf). \<forall>g' \<in> set (Groups conf). Address g = Address g' \<longrightarrow>
                  (a2u (Address g) (groupOptions t l boot g) = None)
                    = (a2u (Address g') (groupOptions t l boot g') = None)) \<longrightarrow>
              (\<forall>a h. upstreams b a = Some h \<longrightarrow>
                (\<exists>g0. find (\<lambda>g. Address g = a) (Groups conf) = Some g0
                      \<and> heap (wld b) ! h = (a, groupOptions t l boot g0)))"
  proof (intro impI allI)
    fix a h
    assume same: "\<forall>g \<in> set (Groups conf). \<forall>g' \<in> set (Groups conf). Address g = Address g' \<longrightarrow>
                  (a2u (Address g) (groupOptions t l boot g) = None)
                    = (a2u (Address g') (groupOptions t l boot g') = None)"
      and p: "upstreams b a = Some h"
    from p have "upstreams (buildLoop a2u U t l boot (initBuild w) (Groups conf)) a = Some h"
      by (simp add: b_def)
    from pooled_first_referencing [OF this same]
    show "\<exists>g0. find (\<lambda>g. Address g = a) (Groups conf) = Some g0
                      \<and> heap (wld b) ! h = (a, groupOptions t l boot g0)"
      by (simp add: b_def)
  qed
  have L: "newUpstreams a2u U conf l boot w
            = Some ((ups b, privateConf b, Annotate (Join (errs b)) ''creating upstreams''), wld b)
          \<and> ups b = ups (routeAll U (upstreams b) (initBuild w) (survivors a2u t l boot {} (Groups conf)))
          \<and> privateConf b
              = privateConf (routeAll U (upstreams b) (initBuild w) (survivors a2u t l boot {} (Groups conf)))
          \<and> (\<forall>a h. upstreams b a = Some h \<longrightarrow>
                (\<exists>g. firstAccepted a2u t l boot a (Groups conf) = Some g
                     \<and> heap (wld b) ! h = (a, groupOptions t l boot g)))
          \<and> (\<forall>a g0. find (\<lambda>g. Address g = a) (Groups conf) = Some g0
                     \<and> a2u a (groupOptions t l boot g0) = None \<longrightarrow>
                firstAccepted a2u t l boot a (Groups conf) = Some g0)
          \<and> ((\<forall>g \<in> set (Groups conf). \<forall>g' \<in> set (Groups conf). Address g = Address g' \<longrightarrow>
                  (a2u (Address g) (groupOptions t l boot g) = None)
                    = (a2u (Address g') (groupOptions t l boot g') = None)) \<longrightarrow>
              (\<forall>a h. upstreams b a = Some h \<longrightarrow>
                (\<exists>g0. find (\<lambda>g. Address g = a) (Groups conf) = Some g0
                      \<and> heap (wld b) ! h = (a, groupOptions t l boot g0))))"
    using 1 3 4 5 7 8 by (intro conjI)
  show ?thesis
    unfolding Let_def t_def [symmetric] b_def [symmetric] using 0 L by (rule conjI)
qed

text \<open>
  In the example configuration \<open>office\<close> comes after \<open>private\<close> with the same address: its
  entry holds the handle of the object built with the options of \<open>private\<close>.
\<close>

theorem cached_upstream_keeps_first_options_witness:
  "newUpstreamOrCached exA2U ''192.168.12.34'' [''192.168.12.34'' \<mapsto> 1]
      (groupOptions 2000 [] None exOffice) exWorld
     = (Inr 1, [''192.168.12.34'' \<mapsto> 1], exWorld)
   \<and> heap (wld exBuild) ! 1 = (''192.168.12.34'', groupOptions (UpstreamTimeout exConf) [] None exPrivate)
   \<and> domainUpstreams (DomainReservedUpstreams (entryAt (ups exBuild) zeroPrefix)) ''mycompany.local.'' = [1]"
proof -
  have a: "newUpstreamOrCached exA2U ''192.168.12.34'' [''192.168.12.34'' \<mapsto> 1]
      (groupOptions 2000 [] None exOffice) exWorld
     = (Inr 1, [''192.168.12.34'' \<mapsto> 1], exWorld)"
    using cached_upstream_keeps_first_options [where addrToUps = "[''192.168.12.34'' \<mapsto> 1]"
        and addr = "''192.168.12.34''" and u = 1 and a2u = exA2U
        and opts = "groupOptions 2000 [] None exOffice" and w = exWorld]
    by simp
  note T = cached_upstream_keeps_first_options [where a2u = exA2U and U = exUnicode and conf = exConf
        and l = "[]" and boot = None and w = exWorld, unfolded Let_def, folded exBuild_def,
        THEN conjunct2]
  from T have "\<forall>a h. upstreams exBuild a = Some h \<longrightarrow>
      (\<exists>g. firstAccepted exA2U (UpstreamTimeout exConf) [] None a (Groups exConf) = Some g
           \<and> heap (wld exBuild) ! h = (a, groupOptions (UpstreamTimeout exConf) [] None g))"
    by (elim conjE)
  with ex_pool obtain g where
    g: "firstAccepted exA2U (UpstreamTimeout exConf) [] None ''192.168.12.34'' (Groups exConf) = Some g"
    and o: "heap (wld exBuild) ! 1 = (''192.168.12.34'', groupOptions (UpstreamTimeout exConf) [] None g)"
    by blast
  from g ex_first have "g = exPrivate" by simp
  with o have b: "heap (wld exBuild) ! 1
      = (''192.168.12.34'', groupOptions (UpstreamTimeout exConf) [] None exPrivate)" by simp
  from a b ex_routes show ?thesis by simp
qed


end
